theory Spec2Isabelle
  imports Main "HOL-Library.AList"
begin

section \<open>The session coordinator of ptt-backend (src/services/websocket.js)\<close>

text \<open>
  The class \<^verbatim>\<open>WebSocketService\<close> is embedded as a record of its fields and one function
  per method. A WebSocket object is a handle (a natural number); the properties the
  service reads from and writes to such an object (\<^verbatim>\<open>ws.user\<close>, \<^verbatim>\<open>ws.readyState\<close>) live in
  a store indexed by the handle, and so do the parts of the Node runtime the service
  relies on: the server's set \<^verbatim>\<open>wss.clients\<close>, the handles that have the
  \<^verbatim>\<open>message\<close>/\<^verbatim>\<open>close\<close> listeners of \<^verbatim>\<open>handleConnection\<close> attached, the pending timeouts
  and whether \<^verbatim>\<open>process.exit\<close> was called. Everything the service emits (frames written
  to a socket, \<^verbatim>\<open>close()\<close> calls, calls to the statistics service) is appended to a log.
  A handler that would throw a \<^verbatim>\<open>TypeError\<close> (reading \<^verbatim>\<open>.uid\<close> of a missing \<^verbatim>\<open>ws.user\<close>)
  returns \<open>None\<close>.
\<close>

subsection \<open>Data\<close>

type_synonym conn = nat
type_synonym uid = string

text \<open>The identity record built by \<^verbatim>\<open>verifyClientToken\<close> (middleware/authentication.js).\<close>

record user =
  uid :: uid
  name :: string
  email :: string
  picture :: "string option"

datatype readyState = CONNECTING | OPEN | CLOSING | CLOSED

text \<open>
  Inbound envelopes \<^verbatim>\<open>{type, payload}\<close>, one constructor per \<^verbatim>\<open>case\<close> of the switch in
  \<^verbatim>\<open>handleMessage\<close>, with the payload fields that the case reads. An optional field
  (\<^verbatim>\<open>targetUid\<close>) is an option. \<open>UnknownType\<close> is any type the switch does not list,
  \<open>Unparseable\<close> a frame on which \<^verbatim>\<open>JSON.parse\<close> throws. The envelopes covered are those
  whose \<^verbatim>\<open>payload\<close> is an object wherever the case reads a field of it, with a string
  for a uid, a boolean for \<^verbatim>\<open>active\<close> and a number for \<^verbatim>\<open>rtt\<close>; the payloads the relay
  forwards are opaque strings.
\<close>

datatype inbound =
    RegisterAsHost
  | SpeakingStarted
  | RequestToSpeak
  | CancelRequest
  | FinishedSpeaking
  | ReleaseFloor
  | AdminKickUser uid
  | AdminRemoveRequest uid
  | AdminToggleSession bool
  | AdminReleaseFloor
  | AdminUnkickUser uid
  | AdminGrantFloor uid
  | WebrtcOffer string
  | WebrtcAnswer string "uid option"
  | WebrtcIceCandidate string "uid option"
  | Ping
  | LatencyUpdate nat
  | WebrtcStats string
  | UnknownType
  | Unparseable

datatype outbound =
    SystemWelcome user string
  | SystemSessionStatus bool
  | SystemSpeakerUpdate "user option"
  | SystemParticipantList "user list"
  | SystemRequestQueue "user list"
  | SystemBannedList "user list"
  | SystemSpeakGranted
  | SystemRequestAcknowledged
  | SystemRequestCancelled
  | SystemRequestRemoved
  | SystemStudentRequest uid string string
  | SystemError string
  | OutWebrtcOffer string uid
  | OutWebrtcAnswer string
  | OutWebrtcIceCandidate string "uid option"
  | Pong

text \<open>Calls to the statistics service (fire and forget, no result consumed).\<close>

datatype stats =
    AddUser user
  | LogEvent string uid
  | StartOrResumeSession uid
  | EndSession
  | AddLatencySample uid nat
  | AddWebRTCSample uid string

datatype effect = Send conn outbound | Close conn | Stats stats

record state =
  clients :: "(conn \<times> uid) list"
  speaker :: "conn option"
  speakQueue :: "conn list"
  requestQueue :: "conn list"
  hostWs :: "conn option"
  isSessionActive :: bool
  bannedUids :: "(uid \<times> user) list"
  lastSpeakTimeMap :: "uid \<rightharpoonup> nat"
  shutdownTimer :: "nat option"
  serverIP :: string
  wsUser :: "conn \<rightharpoonup> user"
  readyState :: "conn \<Rightarrow> readyState"
  listening :: "conn set"
  wssClients :: "conn list"
  timers :: "(nat \<times> nat) list"
  nextTimer :: nat
  exited :: bool
  effects :: "effect list"

text \<open>
  The first ten fields are those of the constructor. \<open>clients\<close> and \<open>bannedUids\<close> are
  JavaScript \<^verbatim>\<open>Map\<close>s, iterated in insertion order, hence association lists.
  \<open>timers\<close> holds the pending timeouts as (handle, due time); \<open>nextTimer\<close> is the next
  fresh handle.
\<close>

definition initial :: "string \<Rightarrow> state" where
  "initial ip =
     \<lparr> clients = [], speaker = None, speakQueue = [], requestQueue = [], hostWs = None,
       isSessionActive = False, bannedUids = [], lastSpeakTimeMap = Map.empty,
       shutdownTimer = None, serverIP = ip,
       wsUser = Map.empty, readyState = (\<lambda>_. CONNECTING), listening = {}, wssClients = [],
       timers = [], nextTimer = 0, exited = False, effects = [] \<rparr>"

subsection \<open>Runtime primitives\<close>

definition emit :: "state \<Rightarrow> effect list \<Rightarrow> state" where
  "emit s es = s\<lparr>effects := effects s @ es\<rparr>"

text \<open>\<^verbatim>\<open>ws.close()\<close> of the ws library: an open socket starts its closing handshake.\<close>

definition ws_close :: "state \<Rightarrow> conn \<Rightarrow> state" where
  "ws_close s ws =
     (if readyState s ws = OPEN
      then emit (s\<lparr>readyState := (readyState s)(ws := CLOSING)\<rparr>) [Close ws]
      else s)"

definition clearTimeout :: "state \<Rightarrow> nat \<Rightarrow> state" where
  "clearTimeout s t = s\<lparr>timers := filter (\<lambda>(h, _). h \<noteq> t) (timers s)\<rparr>"

definition endsWith :: "string \<Rightarrow> string \<Rightarrow> bool" where
  "endsWith str suf =
     (length suf \<le> length str \<and> drop (length str - length suf) str = suf)"

subsection \<open>Helpers of the service\<close>

definition send :: "state \<Rightarrow> conn \<Rightarrow> outbound \<Rightarrow> state" where
  "send s ws data = (if readyState s ws = OPEN then emit s [Send ws data] else s)"

definition broadcast :: "state \<Rightarrow> outbound \<Rightarrow> state" where
  "broadcast s data =
     emit s (map (\<lambda>client. Send client data)
               (filter (\<lambda>client. readyState s client = OPEN) (wssClients s)))"

definition broadcastSpeakerUpdate :: "state \<Rightarrow> state" where
  "broadcastSpeakerUpdate s =
     broadcast s (SystemSpeakerUpdate
       (case speaker s of None \<Rightarrow> None | Some sp \<Rightarrow> wsUser s sp))"

definition broadcastParticipantList :: "state \<Rightarrow> state" where
  "broadcastParticipantList s =
     (case hostWs s of
        None \<Rightarrow> s
      | Some h \<Rightarrow>
          send s h (SystemParticipantList
            (List.map_filter (\<lambda>(ws, _). if ws \<noteq> h then wsUser s ws else None) (clients s))))"

text \<open>\<^verbatim>\<open>ws.user.uid\<close> inside the \<^verbatim>\<open>map\<close> throws when a queued socket has no user.\<close>

definition broadcastRequestQueue :: "state \<Rightarrow> state option" where
  "broadcastRequestQueue s =
     (case hostWs s of
        None \<Rightarrow> Some s
      | Some h \<Rightarrow>
          (case those (map (wsUser s) (requestQueue s)) of
             None \<Rightarrow> None
           | Some queue \<Rightarrow> Some (send s h (SystemRequestQueue queue))))"

definition broadcastBannedList :: "state \<Rightarrow> state" where
  "broadcastBannedList s =
     (case hostWs s of
        None \<Rightarrow> s
      | Some h \<Rightarrow> send s h (SystemBannedList (map snd (bannedUids s))))"

definition findClientByUid :: "state \<Rightarrow> uid \<Rightarrow> conn option" where
  "findClientByUid s u =
     map_option fst
       (find (\<lambda>(client, clientUid). clientUid = u \<and> readyState s client = OPEN) (clients s))"

definition isLecturer :: "user \<Rightarrow> bool" where
  "isLecturer usr = (endsWith (email usr) ''@um.edu.my'' \<or> endsWith (email usr) ''@gmail.com'')"

definition logEvent :: "state \<Rightarrow> string \<Rightarrow> conn \<Rightarrow> state option" where
  "logEvent s ev ws =
     (case wsUser s ws of
        None \<Rightarrow> None
      | Some usr \<Rightarrow> Some (emit s [Stats (LogEvent ev (uid usr))]))"

subsection \<open>Admission\<close>

text \<open>
  Step 2 of \<^verbatim>\<open>handleConnection\<close> (``Check for Duplicates''): an open socket registered for
  the uid is closed and deleted from \<open>clients\<close>; nothing else is touched.
\<close>

definition closeDuplicate :: "state \<Rightarrow> uid \<Rightarrow> state" where
  "closeDuplicate s u =
     (case findClientByUid s u of
        None \<Rightarrow> s
      | Some existingClient \<Rightarrow>
          (ws_close s existingClient)\<lparr>clients := AList.delete existingClient (clients s)\<rparr>)"

text \<open>The loop of step 3: some registered socket belongs to a lecturer.\<close>

definition lecturerPresent :: "state \<Rightarrow> bool" where
  "lecturerPresent s =
     list_ex (\<lambda>(client, _). case wsUser s client of
                               None \<Rightarrow> False
                             | Some clientUser \<Rightarrow> isLecturer clientUser) (clients s)"

definition handleConnection :: "state \<Rightarrow> conn \<Rightarrow> user \<Rightarrow> state option" where
  "handleConnection s ws usr =
     (if map_of (bannedUids s) (uid usr) \<noteq> None then
        Some (ws_close (send s ws (SystemError ''You have been kicked from this session.'')) ws)
      else
        let s1 = closeDuplicate s (uid usr) in
        if isLecturer usr \<and> lecturerPresent s1 then
          Some (ws_close
                 (send s1 ws (SystemError
                    ''A lecturer is already in the session. Only one lecturer is allowed.'')) ws)
        else
          let s2 = s1\<lparr>wsUser := (wsUser s1)(ws \<mapsto> usr),
                      clients := AList.update ws (uid usr) (clients s1),
                      listening := insert ws (listening s1)\<rparr>;
              s3 = send s2 ws (SystemSessionStatus (isSessionActive s2));
              s4 = send s3 ws (SystemWelcome usr (serverIP s3));
              s5 = send s4 ws (SystemSpeakerUpdate
                     (case speaker s4 of None \<Rightarrow> None | Some sp \<Rightarrow> wsUser s4 sp));
              s6 = broadcastParticipantList s5
          in
          (case (if hostWs s6 = Some ws then broadcastRequestQueue s6 else Some s6) of
             None \<Rightarrow> None
           | Some s7 \<Rightarrow>
               Some (if \<not> isLecturer usr then emit s7 [Stats (AddUser usr)] else s7)))"

subsection \<open>Floor control\<close>

definition grantMic :: "state \<Rightarrow> conn \<Rightarrow> state option" where
  "grantMic s ws =
     (let s1 = s\<lparr>speaker := Some ws\<rparr> in
      case (if ws \<in> set (requestQueue s1)
            then broadcastRequestQueue
                   (s1\<lparr>requestQueue := filter (\<lambda>c. c \<noteq> ws) (requestQueue s1)\<rparr>)
            else Some s1) of
        None \<Rightarrow> None
      | Some s2 \<Rightarrow>
          (case logEvent (send s2 ws SystemSpeakGranted) ''SPEAK_GRANTED'' ws of
             None \<Rightarrow> None
           | Some s3 \<Rightarrow> Some (broadcastSpeakerUpdate s3)))"

definition handleRequestToSpeak :: "state \<Rightarrow> conn \<Rightarrow> state option" where
  "handleRequestToSpeak s ws =
     (case hostWs s of
        None \<Rightarrow> Some (send s ws (SystemError ''Lecturer disconnected.''))
      | Some h \<Rightarrow>
          if speaker s = None then grantMic s ws
          else if speaker s = Some ws then
            logEvent (send s ws SystemSpeakGranted) ''SPEAK_PULSE'' ws
          else
            (case (if ws \<notin> set (requestQueue s)
                   then map_option (\<lambda>s1. send s1 ws SystemRequestAcknowledged)
                          (broadcastRequestQueue (s\<lparr>requestQueue := requestQueue s @ [ws]\<rparr>))
                   else Some s) of
               None \<Rightarrow> None
             | Some s2 \<Rightarrow>
                 (case wsUser s2 ws of
                    None \<Rightarrow> None
                  | Some usr \<Rightarrow>
                      Some (send s2 h (SystemStudentRequest (uid usr) (name usr) (email usr))))))"

definition handleCancelRequest :: "state \<Rightarrow> conn \<Rightarrow> state option" where
  "handleCancelRequest s ws =
     (if ws \<in> set (requestQueue s) then
        map_option (\<lambda>s1. send s1 ws SystemRequestCancelled)
          (broadcastRequestQueue (s\<lparr>requestQueue := filter (\<lambda>c. c \<noteq> ws) (requestQueue s)\<rparr>))
      else Some s)"

definition handleAdminRemoveRequest :: "state \<Rightarrow> uid \<Rightarrow> state option" where
  "handleAdminRemoveRequest s u =
     (case findClientByUid s u of
        Some client \<Rightarrow>
          map_option (\<lambda>s1. send s1 client SystemRequestRemoved)
            (broadcastRequestQueue
               (s\<lparr>requestQueue := filter (\<lambda>c. c \<noteq> client) (requestQueue s)\<rparr>))
      | None \<Rightarrow>
          (case those (map (wsUser s) (requestQueue s)) of
             None \<Rightarrow> None
           | Some _ \<Rightarrow>
               broadcastRequestQueue
                 (s\<lparr>requestQueue :=
                      filter (\<lambda>c. map_option uid (wsUser s c) \<noteq> Some u) (requestQueue s)\<rparr>)))"

definition handleReleaseFloor :: "state \<Rightarrow> conn \<Rightarrow> nat \<Rightarrow> state option" where
  "handleReleaseFloor s ws now =
     (if speaker s = Some ws then
        (case wsUser s ws of
           None \<Rightarrow> None
         | Some usr \<Rightarrow>
             Some (broadcastSpeakerUpdate
                    ((emit (s\<lparr>lastSpeakTimeMap := (lastSpeakTimeMap s)(uid usr \<mapsto> now)\<rparr>)
                        [Stats (LogEvent ''FLOOR_RELEASED'' (uid usr))])
                      \<lparr>speaker := None\<rparr>)))
      else Some s)"

definition handleFinishedSpeaking :: "state \<Rightarrow> conn \<Rightarrow> state option" where
  "handleFinishedSpeaking s ws =
     (if speaker s = Some ws then logEvent s ''SPEAK_FINISHED'' ws else Some s)"

definition handleAdminKick :: "state \<Rightarrow> uid \<Rightarrow> state" where
  "handleAdminKick s targetUid =
     (let targetClient = findClientByUid s targetUid;
          s1 = (case targetClient of
                  None \<Rightarrow> s
                | Some tc \<Rightarrow>
                    (case wsUser s tc of
                       None \<Rightarrow> s
                     | Some tu \<Rightarrow> s\<lparr>bannedUids := AList.update targetUid tu (bannedUids s)\<rparr>));
          s2 = broadcastBannedList s1
      in case targetClient of
           None \<Rightarrow> s2
         | Some tc \<Rightarrow>
             let s3 = send s2 tc (SystemError ''You have been kicked by the lecturer.'');
                 s4 = (if speaker s3 = Some tc
                       then broadcastSpeakerUpdate (s3\<lparr>speaker := None\<rparr>)
                       else s3)
             in ws_close s4 tc)"

subsection \<open>Disconnect\<close>

definition handleDisconnect :: "state \<Rightarrow> conn \<Rightarrow> nat \<Rightarrow> state option" where
  "handleDisconnect s ws now =
     (case wsUser s ws of
        None \<Rightarrow> Some s
      | Some usr \<Rightarrow>
          let s1 = (if hostWs s = Some ws then
                      let a = emit (broadcast (s\<lparr>hostWs := None, isSessionActive := False\<rparr>)
                                      (SystemSessionStatus False))
                                [Stats EndSession];
                          b = (case shutdownTimer a of
                                 None \<Rightarrow> a
                               | Some t \<Rightarrow> clearTimeout a t)
                      in b\<lparr>timers := timers b @ [(nextTimer b, now + 10000)],
                            shutdownTimer := Some (nextTimer b),
                            nextTimer := Suc (nextTimer b)\<rparr>
                    else s);
              s2 = s1\<lparr>clients := AList.delete ws (clients s1)\<rparr>;
              s3 = (if speaker s2 = Some ws
                    then broadcastSpeakerUpdate
                           (s2\<lparr>lastSpeakTimeMap := (lastSpeakTimeMap s2)(uid usr \<mapsto> now),
                                speaker := None\<rparr>)
                    else s2)
          in
          (case (if ws \<in> set (requestQueue s3)
                 then broadcastRequestQueue
                        (s3\<lparr>requestQueue := filter (\<lambda>c. c \<noteq> ws) (requestQueue s3)\<rparr>)
                 else Some s3) of
             None \<Rightarrow> None
           | Some s4 \<Rightarrow>
               Some (broadcastParticipantList
                      (s4\<lparr>speakQueue := filter (\<lambda>client. client \<noteq> ws) (speakQueue s4)\<rparr>))))"

subsection \<open>Message dispatch\<close>

text \<open>
  \<open>now\<close> is the value of \<^verbatim>\<open>Date.now()\<close> while the handler runs. A string is truthy when
  it is not empty.
\<close>

definition registerAsHost :: "state \<Rightarrow> conn \<Rightarrow> state option" where
  "registerAsHost s ws =
     (let s1 = (case shutdownTimer s of
                  None \<Rightarrow> s
                | Some t \<Rightarrow> (clearTimeout s t)\<lparr>shutdownTimer := None\<rparr>);
          s2 = s1\<lparr>hostWs := Some ws, isSessionActive := True\<rparr>;
          s3 = (case wsUser s2 ws of
                  None \<Rightarrow> s2
                | Some usr \<Rightarrow>
                    if uid usr = [] then s2
                    else emit s2
                      (Stats (StartOrResumeSession (uid usr)) #
                       map (\<lambda>cu. Stats (AddUser cu))
                         (List.map_filter
                            (\<lambda>(client, _).
                               if client \<noteq> ws then
                                 (case wsUser s2 client of
                                    None \<Rightarrow> None
                                  | Some cu \<Rightarrow> if \<not> isLecturer cu then Some cu else None)
                               else None)
                            (clients s2))));
          s4 = broadcast s3 (SystemSessionStatus True);
          s5 = broadcastParticipantList s4
      in broadcastRequestQueue s5)"

fun handleMessage :: "state \<Rightarrow> conn \<Rightarrow> inbound \<Rightarrow> nat \<Rightarrow> state option" where
  "handleMessage s ws Unparseable now = Some s"
| "handleMessage s ws RegisterAsHost now = registerAsHost s ws"
| "handleMessage s ws SpeakingStarted now =
     (if speaker s = Some ws then logEvent s ''SPEAK_PULSE'' ws else Some s)"
| "handleMessage s ws RequestToSpeak now =
     (if \<not> isSessionActive s then Some s
      else case logEvent s ''REQUEST_TO_SPEAK'' ws of
             None \<Rightarrow> None
           | Some s1 \<Rightarrow> handleRequestToSpeak s1 ws)"
| "handleMessage s ws CancelRequest now = handleCancelRequest s ws"
| "handleMessage s ws FinishedSpeaking now = handleFinishedSpeaking s ws"
| "handleMessage s ws ReleaseFloor now = handleReleaseFloor s ws now"
| "handleMessage s ws (AdminKickUser u) now =
     (if hostWs s = Some ws then Some (handleAdminKick s u) else Some s)"
| "handleMessage s ws (AdminRemoveRequest u) now =
     (if hostWs s = Some ws then handleAdminRemoveRequest s u else Some s)"
| "handleMessage s ws (AdminToggleSession active) now =
     (if hostWs s = Some ws
      then Some (broadcast (s\<lparr>isSessionActive := active\<rparr>) (SystemSessionStatus active))
      else Some s)"
| "handleMessage s ws AdminReleaseFloor now =
     (if hostWs s = Some ws then
        (case (case speaker s of
                 None \<Rightarrow> Some s
               | Some sp \<Rightarrow>
                   (case wsUser s sp of
                      None \<Rightarrow> None
                    | Some su \<Rightarrow>
                        Some (s\<lparr>lastSpeakTimeMap := (lastSpeakTimeMap s)(uid su \<mapsto> now)\<rparr>))) of
           None \<Rightarrow> None
         | Some s1 \<Rightarrow> Some (broadcastSpeakerUpdate (s1\<lparr>speaker := None\<rparr>)))
      else Some s)"
| "handleMessage s ws (AdminUnkickUser u) now =
     (if hostWs s = Some ws then
        (if map_of (bannedUids s) u \<noteq> None
         then Some (broadcastBannedList (s\<lparr>bannedUids := AList.delete u (bannedUids s)\<rparr>))
         else Some s)
      else Some s)"
| "handleMessage s ws (AdminGrantFloor targetUid) now =
     (if hostWs s = Some ws then
        (case findClientByUid s targetUid of
           None \<Rightarrow> Some s
         | Some targetClient \<Rightarrow>
             Some (broadcastSpeakerUpdate
                    (send (s\<lparr>speaker := Some targetClient\<rparr>) targetClient SystemSpeakGranted)))
      else Some s)"
| "handleMessage s ws (WebrtcOffer payload) now =
     (case hostWs s of
        Some h \<Rightarrow>
          (case wsUser s ws of
             None \<Rightarrow> None
           | Some usr \<Rightarrow> Some (send s h (OutWebrtcOffer payload (uid usr))))
      | None \<Rightarrow> (case wsUser s ws of None \<Rightarrow> None | Some usr \<Rightarrow> Some s))"
| "handleMessage s ws (WebrtcAnswer sdp targetUid) now =
     (case targetUid of
        None \<Rightarrow> Some s
      | Some t \<Rightarrow>
          if hostWs s = Some ws \<and> t \<noteq> [] then
            (case findClientByUid s t of
               Some targetClient \<Rightarrow> Some (send s targetClient (OutWebrtcAnswer sdp))
             | None \<Rightarrow> Some s)
          else Some s)"
| "handleMessage s ws (WebrtcIceCandidate candidate targetUid) now =
     (if hostWs s = Some ws \<and> (case targetUid of None \<Rightarrow> False | Some t \<Rightarrow> t \<noteq> []) then
        (case findClientByUid s (case targetUid of None \<Rightarrow> [] | Some t \<Rightarrow> t) of
           Some targetClient \<Rightarrow>
             Some (send s targetClient (OutWebrtcIceCandidate candidate None))
         | None \<Rightarrow> Some s)
      else
        (case hostWs s of
           Some h \<Rightarrow>
             (case wsUser s ws of
                None \<Rightarrow> None
              | Some usr \<Rightarrow>
                  Some (send s h (OutWebrtcIceCandidate candidate (Some (uid usr)))))
         | None \<Rightarrow> Some s))"
| "handleMessage s ws Ping now = Some (send s ws Pong)"
| "handleMessage s ws (LatencyUpdate rtt) now =
     (case wsUser s ws of
        None \<Rightarrow> Some s
      | Some usr \<Rightarrow>
          if uid usr \<noteq> [] then Some (emit s [Stats (AddLatencySample (uid usr) rtt)])
          else Some s)"
| "handleMessage s ws (WebrtcStats payload) now =
     (case wsUser s ws of
        None \<Rightarrow> Some s
      | Some usr \<Rightarrow>
          if uid usr \<noteq> [] then Some (emit s [Stats (AddWebRTCSample (uid usr) payload)])
          else Some s)"
| "handleMessage s ws UnknownType now = Some s"

subsection \<open>The event loop\<close>

text \<open>
  Node runs one callback at a time. The callbacks that reach the service are: the server's
  \<^verbatim>\<open>connection\<close> event for a new, authenticated socket (src/index.js calls
  \<^verbatim>\<open>handleConnection\<close>), a \<^verbatim>\<open>message\<close> or \<^verbatim>\<open>close\<close> event of a socket, and the expiry
  of a timeout. The ws library opens a socket and adds it to \<^verbatim>\<open>wss.clients\<close> before the
  \<^verbatim>\<open>connection\<close> event, and marks it closed and removes it from \<^verbatim>\<open>wss.clients\<close> before
  its \<^verbatim>\<open>close\<close> listeners run. The callback of the only timeout is \<^verbatim>\<open>process.exit(0)\<close>.
\<close>

datatype event =
    Connection conn user
  | Message conn inbound nat
  | Closed conn nat
  | Timeout nat

fun step :: "state \<Rightarrow> event \<Rightarrow> state option" where
  "step s (Connection ws usr) =
     handleConnection
       (s\<lparr>readyState := (readyState s)(ws := OPEN), wssClients := wssClients s @ [ws]\<rparr>) ws usr"
| "step s (Message ws msg now) = handleMessage s ws msg now"
| "step s (Closed ws now) =
     (let s1 = s\<lparr>readyState := (readyState s)(ws := CLOSED),
                 wssClients := removeAll ws (wssClients s)\<rparr>
      in if ws \<in> listening s then handleDisconnect s1 ws now else Some s1)"
| "step s (Timeout t) =
     (if t \<in> fst ` set (timers s)
      then Some (s\<lparr>timers := filter (\<lambda>(h, _). h \<noteq> t) (timers s), exited := True\<rparr>)
      else Some s)"

text \<open>
  What the environment can do: a socket connects once (a handle that is still
  \<open>CONNECTING\<close> has not been handed to the service), frames and the close event arrive
  only on a socket that is not closed yet, frames only where the listener is attached,
  and nothing runs after the process has exited.
\<close>

fun enabled :: "state \<Rightarrow> event \<Rightarrow> bool" where
  "enabled s (Connection ws usr) = (\<not> exited s \<and> readyState s ws = CONNECTING)"
| "enabled s (Message ws msg now) =
     (\<not> exited s \<and> ws \<in> listening s \<and> (readyState s ws = OPEN \<or> readyState s ws = CLOSING))"
| "enabled s (Closed ws now) =
     (\<not> exited s \<and> (readyState s ws = OPEN \<or> readyState s ws = CLOSING))"
| "enabled s (Timeout t) = (\<not> exited s \<and> t \<in> fst ` set (timers s))"

fun exec :: "state \<Rightarrow> event list \<Rightarrow> state option" where
  "exec s [] = Some s"
| "exec s (e # es) =
     (if enabled s e
      then (case step s e of None \<Rightarrow> None | Some s' \<Rightarrow> exec s' es)
      else None)"

inductive reachable :: "state \<Rightarrow> bool" where
  reachable_initial: "reachable (initial ip)"
| reachable_step: "reachable s \<Longrightarrow> enabled s e \<Longrightarrow> step s e = Some s' \<Longrightarrow> reachable s'"

subsection \<open>Concrete sessions\<close>

text \<open>
  A lecturer and two students, and the opening of a session: the lecturer connects and
  registers as host, the first student asks for the floor and gets it, the second asks
  and is queued.
\<close>

definition lecturerH :: user where
  "lecturerH = \<lparr>uid = ''h'', name = ''Hana'', email = ''hana@um.edu.my'', picture = None\<rparr>"

definition studentA :: user where
  "studentA = \<lparr>uid = ''a'', name = ''Adam'', email = ''adam@siswa.um.edu.my'', picture = None\<rparr>"

definition studentB :: user where
  "studentB = \<lparr>uid = ''b'', name = ''Bea'', email = ''bea@siswa.um.edu.my'', picture = None\<rparr>"

definition boot :: state where
  "boot = initial ''10.0.0.1''"

definition warmup :: "event list" where
  "warmup =
     [Connection 0 lecturerH, Message 0 RegisterAsHost 100,
      Connection 1 studentA, Message 1 RequestToSpeak 200,
      Connection 2 studentB, Message 2 RequestToSpeak 300]"

text \<open>The host pauses the session while a student waits in the lobby.\<close>

definition pausedLobby :: "event list" where
  "pausedLobby =
     [Connection 0 lecturerH, Message 0 RegisterAsHost 100,
      Connection 1 studentA, Message 0 (AdminToggleSession False) 300]"

text \<open>The frames written to one socket, in order.\<close>

definition sentTo :: "conn \<Rightarrow> effect list \<Rightarrow> outbound list" where
  "sentTo ws es = List.map_filter (\<lambda>e. case e of Send c m \<Rightarrow> if c = ws then Some m else None
                                               | _ \<Rightarrow> None) es"

text \<open>The lecturer hosts the session and the first student holds the floor.\<close>

definition floorHeld :: "event list" where
  "floorHeld =
     [Connection 0 lecturerH, Message 0 RegisterAsHost 100,
      Connection 1 studentA, Message 1 RequestToSpeak 200]"

text \<open>A student who holds the floor opens a second connection.\<close>

definition rejoin :: "event list" where
  "rejoin = floorHeld @ [Connection 2 studentA]"

text \<open>The host pauses the session while a student holds the floor.\<close>

definition paused :: "event list" where
  "paused = floorHeld @ [Message 0 (AdminToggleSession False) 300]"

subsection \<open>Consistency of the coordinator state\<close>

text \<open>
  Every socket with listeners attached has its identity and has been opened; the speaker
  slot, the request queue, the host slot and the registry only hold such sockets; an
  active session has a host; a registry entry carries the uid of its socket's identity;
  an open socket with listeners is in the registry; no two open sockets of the registry
  share a uid; no open socket with listeners has a banned uid.
\<close>

definition users_ok :: "state \<Rightarrow> bool" where
  "users_ok s \<longleftrightarrow>
     (\<forall>c \<in> listening s. wsUser s c \<noteq> None \<and> readyState s c \<noteq> CONNECTING)"

definition refs_ok :: "state \<Rightarrow> bool" where
  "refs_ok s \<longleftrightarrow>
     (\<forall>c. speaker s = Some c \<longrightarrow> c \<in> listening s) \<and>
     set (requestQueue s) \<subseteq> listening s \<and>
     (\<forall>c. hostWs s = Some c \<longrightarrow> c \<in> listening s) \<and>
     (isSessionActive s \<longrightarrow> hostWs s \<noteq> None)"

definition registry_ok :: "state \<Rightarrow> bool" where
  "registry_ok s \<longleftrightarrow>
     (\<forall>c u. (c, u) \<in> set (clients s) \<longrightarrow>
         c \<in> listening s \<and> map_option uid (wsUser s c) = Some u) \<and>
     (\<forall>c \<in> listening s. readyState s c = OPEN \<longrightarrow> c \<in> fst ` set (clients s)) \<and>
     (\<forall>c1 c2 u. (c1, u) \<in> set (clients s) \<longrightarrow> (c2, u) \<in> set (clients s) \<longrightarrow>
         readyState s c1 = OPEN \<longrightarrow> readyState s c2 = OPEN \<longrightarrow> c1 = c2)"

definition bans_ok :: "state \<Rightarrow> bool" where
  "bans_ok s \<longleftrightarrow>
     (\<forall>c \<in> listening s. \<forall>usr. wsUser s c = Some usr \<longrightarrow>
         map_of (bannedUids s) (uid usr) \<noteq> None \<longrightarrow> readyState s c \<noteq> OPEN)"

definition coherent :: "state \<Rightarrow> bool" where
  "coherent s \<longleftrightarrow> users_ok s \<and> refs_ok s \<and> registry_ok s \<and> bans_ok s"

fun isHostRegistration :: "event \<Rightarrow> bool" where
  "isHostRegistration (Message ws RegisterAsHost now) = True"
| "isHostRegistration _ = False"

fun isTimeout :: "event \<Rightarrow> bool" where
  "isTimeout (Timeout t) = True"
| "isTimeout _ = False"

section \<open>Properties\<close>

subsection \<open>What the helpers leave alone\<close>

lemma emit_fields [simp]:
  "clients (emit s es) = clients s"
  "speaker (emit s es) = speaker s"
  "speakQueue (emit s es) = speakQueue s"
  "requestQueue (emit s es) = requestQueue s"
  "hostWs (emit s es) = hostWs s"
  "isSessionActive (emit s es) = isSessionActive s"
  "bannedUids (emit s es) = bannedUids s"
  "lastSpeakTimeMap (emit s es) = lastSpeakTimeMap s"
  "shutdownTimer (emit s es) = shutdownTimer s"
  "serverIP (emit s es) = serverIP s"
  "wsUser (emit s es) = wsUser s"
  "readyState (emit s es) = readyState s"
  "listening (emit s es) = listening s"
  "wssClients (emit s es) = wssClients s"
  "timers (emit s es) = timers s"
  "nextTimer (emit s es) = nextTimer s"
  "exited (emit s es) = exited s"
  by (simp_all add: emit_def)

lemma effects_emit [simp]: "effects (emit s es) = effects s @ es"
  by (simp add: emit_def)

lemma send_fields [simp]:
  "clients (send s ws d) = clients s"
  "speaker (send s ws d) = speaker s"
  "speakQueue (send s ws d) = speakQueue s"
  "requestQueue (send s ws d) = requestQueue s"
  "hostWs (send s ws d) = hostWs s"
  "isSessionActive (send s ws d) = isSessionActive s"
  "bannedUids (send s ws d) = bannedUids s"
  "lastSpeakTimeMap (send s ws d) = lastSpeakTimeMap s"
  "shutdownTimer (send s ws d) = shutdownTimer s"
  "serverIP (send s ws d) = serverIP s"
  "wsUser (send s ws d) = wsUser s"
  "readyState (send s ws d) = readyState s"
  "listening (send s ws d) = listening s"
  "wssClients (send s ws d) = wssClients s"
  "timers (send s ws d) = timers s"
  "nextTimer (send s ws d) = nextTimer s"
  "exited (send s ws d) = exited s"
  by (simp_all add: send_def)

lemma broadcast_fields [simp]:
  "clients (broadcast s d) = clients s"
  "speaker (broadcast s d) = speaker s"
  "speakQueue (broadcast s d) = speakQueue s"
  "requestQueue (broadcast s d) = requestQueue s"
  "hostWs (broadcast s d) = hostWs s"
  "isSessionActive (broadcast s d) = isSessionActive s"
  "bannedUids (broadcast s d) = bannedUids s"
  "lastSpeakTimeMap (broadcast s d) = lastSpeakTimeMap s"
  "shutdownTimer (broadcast s d) = shutdownTimer s"
  "serverIP (broadcast s d) = serverIP s"
  "wsUser (broadcast s d) = wsUser s"
  "readyState (broadcast s d) = readyState s"
  "listening (broadcast s d) = listening s"
  "wssClients (broadcast s d) = wssClients s"
  "timers (broadcast s d) = timers s"
  "nextTimer (broadcast s d) = nextTimer s"
  "exited (broadcast s d) = exited s"
  by (simp_all add: broadcast_def)

lemma broadcastSpeakerUpdate_fields [simp]:
  "clients (broadcastSpeakerUpdate s) = clients s"
  "speaker (broadcastSpeakerUpdate s) = speaker s"
  "speakQueue (broadcastSpeakerUpdate s) = speakQueue s"
  "requestQueue (broadcastSpeakerUpdate s) = requestQueue s"
  "hostWs (broadcastSpeakerUpdate s) = hostWs s"
  "isSessionActive (broadcastSpeakerUpdate s) = isSessionActive s"
  "bannedUids (broadcastSpeakerUpdate s) = bannedUids s"
  "lastSpeakTimeMap (broadcastSpeakerUpdate s) = lastSpeakTimeMap s"
  "shutdownTimer (broadcastSpeakerUpdate s) = shutdownTimer s"
  "serverIP (broadcastSpeakerUpdate s) = serverIP s"
  "wsUser (broadcastSpeakerUpdate s) = wsUser s"
  "readyState (broadcastSpeakerUpdate s) = readyState s"
  "listening (broadcastSpeakerUpdate s) = listening s"
  "wssClients (broadcastSpeakerUpdate s) = wssClients s"
  "timers (broadcastSpeakerUpdate s) = timers s"
  "nextTimer (broadcastSpeakerUpdate s) = nextTimer s"
  "exited (broadcastSpeakerUpdate s) = exited s"
  by (simp_all add: broadcastSpeakerUpdate_def)

lemma broadcastParticipantList_fields [simp]:
  "clients (broadcastParticipantList s) = clients s"
  "speaker (broadcastParticipantList s) = speaker s"
  "speakQueue (broadcastParticipantList s) = speakQueue s"
  "requestQueue (broadcastParticipantList s) = requestQueue s"
  "hostWs (broadcastParticipantList s) = hostWs s"
  "isSessionActive (broadcastParticipantList s) = isSessionActive s"
  "bannedUids (broadcastParticipantList s) = bannedUids s"
  "lastSpeakTimeMap (broadcastParticipantList s) = lastSpeakTimeMap s"
  "shutdownTimer (broadcastParticipantList s) = shutdownTimer s"
  "serverIP (broadcastParticipantList s) = serverIP s"
  "wsUser (broadcastParticipantList s) = wsUser s"
  "readyState (broadcastParticipantList s) = readyState s"
  "listening (broadcastParticipantList s) = listening s"
  "wssClients (broadcastParticipantList s) = wssClients s"
  "timers (broadcastParticipantList s) = timers s"
  "nextTimer (broadcastParticipantList s) = nextTimer s"
  "exited (broadcastParticipantList s) = exited s"
  by (simp_all add: broadcastParticipantList_def split: option.splits)

lemma broadcastBannedList_fields [simp]:
  "clients (broadcastBannedList s) = clients s"
  "speaker (broadcastBannedList s) = speaker s"
  "speakQueue (broadcastBannedList s) = speakQueue s"
  "requestQueue (broadcastBannedList s) = requestQueue s"
  "hostWs (broadcastBannedList s) = hostWs s"
  "isSessionActive (broadcastBannedList s) = isSessionActive s"
  "bannedUids (broadcastBannedList s) = bannedUids s"
  "lastSpeakTimeMap (broadcastBannedList s) = lastSpeakTimeMap s"
  "shutdownTimer (broadcastBannedList s) = shutdownTimer s"
  "serverIP (broadcastBannedList s) = serverIP s"
  "wsUser (broadcastBannedList s) = wsUser s"
  "readyState (broadcastBannedList s) = readyState s"
  "listening (broadcastBannedList s) = listening s"
  "wssClients (broadcastBannedList s) = wssClients s"
  "timers (broadcastBannedList s) = timers s"
  "nextTimer (broadcastBannedList s) = nextTimer s"
  "exited (broadcastBannedList s) = exited s"
  by (simp_all add: broadcastBannedList_def split: option.splits)

lemma ws_close_fields [simp]:
  "clients (ws_close s ws) = clients s"
  "speaker (ws_close s ws) = speaker s"
  "speakQueue (ws_close s ws) = speakQueue s"
  "requestQueue (ws_close s ws) = requestQueue s"
  "hostWs (ws_close s ws) = hostWs s"
  "isSessionActive (ws_close s ws) = isSessionActive s"
  "bannedUids (ws_close s ws) = bannedUids s"
  "lastSpeakTimeMap (ws_close s ws) = lastSpeakTimeMap s"
  "shutdownTimer (ws_close s ws) = shutdownTimer s"
  "serverIP (ws_close s ws) = serverIP s"
  "wsUser (ws_close s ws) = wsUser s"
  "listening (ws_close s ws) = listening s"
  "wssClients (ws_close s ws) = wssClients s"
  "timers (ws_close s ws) = timers s"
  "nextTimer (ws_close s ws) = nextTimer s"
  "exited (ws_close s ws) = exited s"
  by (simp_all add: ws_close_def)

lemma clearTimeout_fields [simp]:
  "clients (clearTimeout s t) = clients s"
  "speaker (clearTimeout s t) = speaker s"
  "speakQueue (clearTimeout s t) = speakQueue s"
  "requestQueue (clearTimeout s t) = requestQueue s"
  "hostWs (clearTimeout s t) = hostWs s"
  "isSessionActive (clearTimeout s t) = isSessionActive s"
  "bannedUids (clearTimeout s t) = bannedUids s"
  "lastSpeakTimeMap (clearTimeout s t) = lastSpeakTimeMap s"
  "shutdownTimer (clearTimeout s t) = shutdownTimer s"
  "serverIP (clearTimeout s t) = serverIP s"
  "wsUser (clearTimeout s t) = wsUser s"
  "readyState (clearTimeout s t) = readyState s"
  "listening (clearTimeout s t) = listening s"
  "wssClients (clearTimeout s t) = wssClients s"
  "nextTimer (clearTimeout s t) = nextTimer s"
  "exited (clearTimeout s t) = exited s"
  "effects (clearTimeout s t) = effects s"
  by (simp_all add: clearTimeout_def)

lemma readyState_ws_close:
  "readyState (ws_close s ws) c =
     (if c = ws \<and> readyState s ws = OPEN then CLOSING else readyState s c)"
  by (simp add: ws_close_def)

lemma timers_clearTimeout [simp]:
  "timers (clearTimeout s t) = filter (\<lambda>(h, _). h \<noteq> t) (timers s)"
  by (simp add: clearTimeout_def)

lemma broadcastRequestQueue_SomeD:
  "broadcastRequestQueue s = Some s' \<Longrightarrow> \<exists>es. s' = emit s es"
  by (auto simp: broadcastRequestQueue_def send_def split: option.splits if_splits
           intro: exI[of _ "[]"])

lemma logEvent_SomeD: "logEvent s ev ws = Some s' \<Longrightarrow> \<exists>es. s' = emit s es"
  by (auto simp: logEvent_def split: option.splits)

lemma those_map_Some: "(those (map f xs) \<noteq> None) = (\<forall>x \<in> set xs. f x \<noteq> None)"
  by (induction xs) (auto split: option.splits)

lemmas handler_defs =
  registerAsHost_def handleRequestToSpeak_def grantMic_def handleCancelRequest_def
  handleAdminRemoveRequest_def handleReleaseFloor_def handleFinishedSpeaking_def
  handleAdminKick_def

text \<open>Unfolding everything evaluates a concrete session.\<close>

lemmas run_defs =
  boot_def warmup_def floorHeld_def rejoin_def paused_def pausedLobby_def
  lecturerH_def studentA_def
  studentB_def initial_def sentTo_def
  handleConnection_def closeDuplicate_def lecturerPresent_def handleDisconnect_def
  findClientByUid_def isLecturer_def endsWith_def
  send_def emit_def ws_close_def clearTimeout_def broadcast_def broadcastParticipantList_def
  broadcastRequestQueue_def broadcastSpeakerUpdate_def broadcastBannedList_def logEvent_def
  List.map_filter_def AList.delete_eq handler_defs

subsection \<open>Message handlers keep the state consistent\<close>

lemma findClientByUid_SomeD:
  "findClientByUid s u = Some c \<Longrightarrow> (c, u) \<in> set (clients s) \<and> readyState s c = OPEN"
  by (auto simp: findClientByUid_def find_Some_iff in_set_conv_nth)

lemma findClientByUid_NoneD:
  "findClientByUid s u = None \<Longrightarrow> (c, u) \<in> set (clients s) \<Longrightarrow> readyState s c \<noteq> OPEN"
  by (auto simp: findClientByUid_def find_None_iff)

lemma handleAdminKick_fields [simp]:
  "clients (handleAdminKick s t) = clients s"
  "speakQueue (handleAdminKick s t) = speakQueue s"
  "requestQueue (handleAdminKick s t) = requestQueue s"
  "hostWs (handleAdminKick s t) = hostWs s"
  "isSessionActive (handleAdminKick s t) = isSessionActive s"
  "lastSpeakTimeMap (handleAdminKick s t) = lastSpeakTimeMap s"
  "shutdownTimer (handleAdminKick s t) = shutdownTimer s"
  "serverIP (handleAdminKick s t) = serverIP s"
  "wsUser (handleAdminKick s t) = wsUser s"
  "listening (handleAdminKick s t) = listening s"
  "wssClients (handleAdminKick s t) = wssClients s"
  "timers (handleAdminKick s t) = timers s"
  "nextTimer (handleAdminKick s t) = nextTimer s"
  "exited (handleAdminKick s t) = exited s"
  by (simp_all add: handleAdminKick_def Let_def split: option.splits)

lemma readyState_handleAdminKick:
  "readyState (handleAdminKick s t) =
     (case findClientByUid s t of None \<Rightarrow> readyState s
      | Some tc \<Rightarrow> (readyState s)(tc := CLOSING))"
  by (auto simp: handleAdminKick_def Let_def readyState_ws_close fun_eq_iff
           split: option.splits dest: findClientByUid_SomeD)

lemma bannedUids_handleAdminKick:
  "bannedUids (handleAdminKick s t) =
     (case findClientByUid s t of None \<Rightarrow> bannedUids s
      | Some tc \<Rightarrow> (case wsUser s tc of None \<Rightarrow> bannedUids s
                   | Some tu \<Rightarrow> AList.update t tu (bannedUids s)))"
  by (simp add: handleAdminKick_def Let_def split: option.splits)


lemma handleMessage_frame:
  "handleMessage s ws m now = Some s' \<Longrightarrow>
     listening s' = listening s \<and> wsUser s' = wsUser s \<and> clients s' = clients s \<and>
     wssClients s' = wssClients s \<and> exited s' = exited s \<and> serverIP s' = serverIP s \<and>
     speakQueue s' = speakQueue s \<and> nextTimer s' = nextTimer s"
  by (cases m)
     (auto simp: handler_defs Let_def split: option.splits if_splits
           dest!: broadcastRequestQueue_SomeD logEvent_SomeD)

lemma handleMessage_readyState:
  "handleMessage s ws m now = Some s' \<Longrightarrow>
     readyState s' c = readyState s c \<or> (readyState s c = OPEN \<and> readyState s' c = CLOSING)"
  by (cases m)
     (auto simp: handler_defs Let_def readyState_ws_close readyState_handleAdminKick split: option.splits if_splits
           dest!: broadcastRequestQueue_SomeD logEvent_SomeD)

lemma handleMessage_refs:
  "refs_ok s \<Longrightarrow> registry_ok s \<Longrightarrow> ws \<in> listening s \<Longrightarrow>
   handleMessage s ws m now = Some s' \<Longrightarrow> refs_ok s'"
  by (cases m)
     (auto simp: handler_defs Let_def refs_ok_def registry_ok_def split: option.splits if_splits
           dest!: broadcastRequestQueue_SomeD logEvent_SomeD findClientByUid_SomeD)


lemma coherent_cong:
  assumes "listening s' = listening s" and "wsUser s' = wsUser s"
    and "readyState s' = readyState s" and "clients s' = clients s"
    and "speaker s' = speaker s" and "requestQueue s' = requestQueue s"
    and "hostWs s' = hostWs s" and "isSessionActive s' = isSessionActive s"
    and "bannedUids s' = bannedUids s"
  shows "coherent s' = coherent s"
  using assms
  by (simp add: coherent_def users_ok_def refs_ok_def registry_ok_def bans_ok_def)

text \<open>
  A step that attaches no listener, keeps the identities, opens no socket, only removes
  registry entries of sockets that are no longer open, and bans a uid only when no open
  registry entry carries it, keeps the state consistent.
\<close>

lemma coherent_mono:
  assumes coh: "coherent s"
    and li: "listening s' = listening s" and us: "wsUser s' = wsUser s"
    and sub: "set (clients s') \<subseteq> set (clients s)"
    and op: "\<And>c. readyState s' c = OPEN \<Longrightarrow> readyState s c = OPEN"
    and co: "\<And>c. readyState s' c = CONNECTING \<Longrightarrow> readyState s c = CONNECTING"
    and keep: "\<And>c u. (c, u) \<in> set (clients s) \<Longrightarrow> readyState s' c = OPEN
                 \<Longrightarrow> (c, u) \<in> set (clients s')"
    and refs: "refs_ok s'"
    and ban: "\<And>u. map_of (bannedUids s') u \<noteq> None \<Longrightarrow>
                 map_of (bannedUids s) u \<noteq> None \<or>
                 (\<forall>c. (c, u) \<in> set (clients s) \<longrightarrow> readyState s' c \<noteq> OPEN)"
  shows "coherent s'"
proof -
  from coh have u: "users_ok s" and g: "registry_ok s" and b: "bans_ok s"
    by (simp_all add: coherent_def)
  have u': "users_ok s'"
    using u li us co unfolding users_ok_def by metis
  have g1: "c \<in> listening s' \<and> map_option uid (wsUser s' c) = Some v"
    if "(c, v) \<in> set (clients s')" for c v
    using g sub that li us unfolding registry_ok_def by auto
  have g2: "c \<in> fst ` set (clients s')" if "c \<in> listening s'" "readyState s' c = OPEN" for c
  proof -
    from that li op have "c \<in> listening s" "readyState s c = OPEN" by auto
    with g obtain v where "(c, v) \<in> set (clients s)"
      unfolding registry_ok_def by force
    with keep that(2) have "(c, v) \<in> set (clients s')" by blast
    then show ?thesis by force
  qed
  have g3: "c1 = c2"
    if "(c1, v) \<in> set (clients s')" "(c2, v) \<in> set (clients s')"
       "readyState s' c1 = OPEN" "readyState s' c2 = OPEN" for c1 c2 v
  proof -
    from that sub have "(c1, v) \<in> set (clients s)" "(c2, v) \<in> set (clients s)" by auto
    moreover from that op have "readyState s c1 = OPEN" "readyState s c2 = OPEN" by auto
    ultimately show ?thesis using g unfolding registry_ok_def by blast
  qed
  have g': "registry_ok s'"
    unfolding registry_ok_def using g1 g2 g3 by blast
  have b': "bans_ok s'"
    unfolding bans_ok_def
  proof (intro ballI allI impI)
    fix c usr
    assume c: "c \<in> listening s'" and usr: "wsUser s' c = Some usr"
      and bn: "map_of (bannedUids s') (uid usr) \<noteq> None"
    show "readyState s' c \<noteq> OPEN"
    proof
      assume o: "readyState s' c = OPEN"
      then have o0: "readyState s c = OPEN" by (rule op)
      from c li have cl: "c \<in> listening s" by simp
      from usr us have usr0: "wsUser s c = Some usr" by simp
      from g cl o0 obtain v where cv: "(c, v) \<in> set (clients s)"
        unfolding registry_ok_def by force
      with g usr0 have "v = uid usr" unfolding registry_ok_def by force
      from ban [OF bn] show False
      proof
        assume "map_of (bannedUids s) (uid usr) \<noteq> None"
        with b cl usr0 o0 show False unfolding bans_ok_def by blast
      next
        assume "\<forall>c. (c, uid usr) \<in> set (clients s) \<longrightarrow> readyState s' c \<noteq> OPEN"
        with cv \<open>v = uid usr\<close> o show False by blast
      qed
    qed
  qed
  from u' refs g' b' show ?thesis by (simp add: coherent_def)
qed


lemma handleMessage_bans:
  assumes "registry_ok s" and "handleMessage s ws m now = Some s'"
    and "map_of (bannedUids s') u \<noteq> None"
  shows "map_of (bannedUids s) u \<noteq> None \<or>
         (\<forall>c. (c, u) \<in> set (clients s) \<longrightarrow> readyState s' c \<noteq> OPEN)"
proof (cases m)
  case (AdminKickUser t)
  show ?thesis
  proof (cases "hostWs s = Some ws")
    case False
    with assms AdminKickUser show ?thesis by simp
  next
    case True
    show ?thesis
    proof (cases "findClientByUid s t")
      case None
      with assms AdminKickUser True show ?thesis
        by (auto simp: bannedUids_handleAdminKick)
    next
      case (Some tc)
      then have tc: "(tc, t) \<in> set (clients s)" "readyState s tc = OPEN"
        by (auto dest: findClientByUid_SomeD)
      have rs: "readyState s' = (readyState s)(tc := CLOSING)"
        using assms(2) AdminKickUser True Some
        by (auto simp: readyState_handleAdminKick)
      have bu: "map_of (bannedUids s') u \<noteq> None \<Longrightarrow> u \<noteq> t \<Longrightarrow> map_of (bannedUids s) u \<noteq> None"
        using assms(2) AdminKickUser True Some
        by (auto simp: bannedUids_handleAdminKick AList.update_conv' split: option.splits)
      show ?thesis
      proof (cases "u = t")
        case False
        with bu assms(3) show ?thesis by simp
      next
        case True
        have "readyState s' c \<noteq> OPEN" if "(c, u) \<in> set (clients s)" for c
        proof (cases "c = tc")
          case True
          then show ?thesis by (simp add: rs)
        next
          case False
          with assms(1) tc that \<open>u = t\<close> have "readyState s c \<noteq> OPEN"
            unfolding registry_ok_def by blast
          with False show ?thesis by (simp add: rs)
        qed
        then show ?thesis by blast
      qed
    qed
  qed
next
  case (AdminUnkickUser t)
  with assms show ?thesis
    by (auto simp: AList.delete_conv' split: if_splits)
qed (use assms in \<open>auto simp: handler_defs Let_def split: option.splits if_splits
           dest!: broadcastRequestQueue_SomeD logEvent_SomeD\<close>)

lemma broadcastRequestQueue_progress:
  "\<forall>c \<in> set (requestQueue s). wsUser s c \<noteq> None \<Longrightarrow> broadcastRequestQueue s \<noteq> None"
  using those_map_Some [of "wsUser s" "requestQueue s"]
  by (auto simp: broadcastRequestQueue_def split: option.splits)

lemma logEvent_progress: "wsUser s ws \<noteq> None \<Longrightarrow> logEvent s ev ws \<noteq> None"
  by (auto simp: logEvent_def)


lemma broadcastRequestQueue_None_iff:
  "broadcastRequestQueue s = None \<longleftrightarrow>
     hostWs s \<noteq> None \<and> (\<exists>c \<in> set (requestQueue s). wsUser s c = None)"
  using those_map_Some [of "wsUser s" "requestQueue s"]
  by (auto simp: broadcastRequestQueue_def split: option.splits)

lemma logEvent_None_iff: "logEvent s ev ws = None \<longleftrightarrow> wsUser s ws = None"
  by (auto simp: logEvent_def split: option.splits)

lemma handleMessage_progress:
  assumes "users_ok s" and "refs_ok s" and "ws \<in> listening s"
  shows "handleMessage s ws m now \<noteq> None"
proof -
  have u: "\<And>c. c \<in> listening s \<Longrightarrow> wsUser s c \<noteq> None"
    using assms(1) by (simp add: users_ok_def)
  have q: "\<And>c. c \<in> set (requestQueue s) \<Longrightarrow> wsUser s c \<noteq> None"
    using assms(2) u by (auto simp: refs_ok_def)
  have sp: "\<And>c. speaker s = Some c \<Longrightarrow> wsUser s c \<noteq> None"
    using assms(2) u by (auto simp: refs_ok_def)
  have w: "wsUser s ws \<noteq> None" using assms(3) u by simp
  have th: "those (map (wsUser s) (requestQueue s)) \<noteq> None"
    using q unfolding those_map_Some by blast
  then obtain us where th': "those (map (wsUser s) (requestQueue s)) = Some us"
    by auto
  show ?thesis
    using q sp w th th'
    by (cases m)
       (auto simp: handler_defs Let_def broadcastRequestQueue_None_iff logEvent_None_iff
             simp del: not_None_eq
             split: option.splits if_splits
             dest!: broadcastRequestQueue_SomeD logEvent_SomeD)
qed

lemma coherent_handleMessage:
  assumes "coherent s" and "ws \<in> listening s" and "handleMessage s ws m now = Some s'"
  shows "coherent s'"
proof (rule coherent_mono [OF assms(1)])
  note fr = handleMessage_frame [OF assms(3)]
  note rs = handleMessage_readyState [OF assms(3)]
  from assms(1) have r: "refs_ok s" and g: "registry_ok s"
    by (simp_all add: coherent_def)
  show "listening s' = listening s" "wsUser s' = wsUser s" "set (clients s') \<subseteq> set (clients s)"
    using fr by simp_all
  show "readyState s c = OPEN" if "readyState s' c = OPEN" for c
    using rs [of c] that by auto
  show "readyState s c = CONNECTING" if "readyState s' c = CONNECTING" for c
    using rs [of c] that by auto
  show "(c, u) \<in> set (clients s')" if "(c, u) \<in> set (clients s)" for c u
    using fr that by simp
  show "refs_ok s'"
    using handleMessage_refs [OF r g assms(2,3)] .
  show "map_of (bannedUids s) u \<noteq> None \<or>
        (\<forall>c. (c, u) \<in> set (clients s) \<longrightarrow> readyState s' c \<noteq> OPEN)"
    if "map_of (bannedUids s') u \<noteq> None" for u
    using handleMessage_bans [OF g assms(3) that] .
qed

subsection \<open>Disconnects keep the state consistent\<close>

lemma filter_neq_id: "ws \<notin> set xs \<Longrightarrow> filter (\<lambda>c. c \<noteq> ws) xs = xs"
  by (induction xs) auto

lemma handleDisconnect_no_user:
  "wsUser s ws = None \<Longrightarrow> handleDisconnect s ws now = Some s"
  by (simp add: handleDisconnect_def)

lemma handleDisconnect_fields:
  assumes "handleDisconnect s ws now = Some s'" and "wsUser s ws = Some usr"
  shows "listening s' = listening s" "wsUser s' = wsUser s" "readyState s' = readyState s"
    "wssClients s' = wssClients s" "exited s' = exited s" "bannedUids s' = bannedUids s"
    "serverIP s' = serverIP s"
    "clients s' = AList.delete ws (clients s)"
    "speaker s' = (if speaker s = Some ws then None else speaker s)"
    "requestQueue s' = filter (\<lambda>c. c \<noteq> ws) (requestQueue s)"
    "speakQueue s' = filter (\<lambda>c. c \<noteq> ws) (speakQueue s)"
    "hostWs s' = (if hostWs s = Some ws then None else hostWs s)"
    "isSessionActive s' = (if hostWs s = Some ws then False else isSessionActive s)"
    "lastSpeakTimeMap s' =
       (if speaker s = Some ws then (lastSpeakTimeMap s)(uid usr \<mapsto> now) else lastSpeakTimeMap s)"
    "timers s' =
       (if hostWs s = Some ws
        then filter (\<lambda>(h, _). Some h \<noteq> shutdownTimer s) (timers s) @ [(nextTimer s, now + 10000)]
        else timers s)"
    "shutdownTimer s' = (if hostWs s = Some ws then Some (nextTimer s) else shutdownTimer s)"
    "nextTimer s' = (if hostWs s = Some ws then Suc (nextTimer s) else nextTimer s)"
  using assms
  by (auto simp: handleDisconnect_def Let_def filter_neq_id
           split: option.splits if_splits dest!: broadcastRequestQueue_SomeD)

lemma handleDisconnect_progress:
  assumes "\<forall>c \<in> set (requestQueue s). wsUser s c \<noteq> None"
  shows "handleDisconnect s ws now \<noteq> None"
proof -
  have "those (map (wsUser s) (filter (\<lambda>c. c \<noteq> ws) (requestQueue s))) \<noteq> None"
    using assms unfolding those_map_Some by auto
  then show ?thesis
    using assms
    by (auto simp: handleDisconnect_def Let_def broadcastRequestQueue_None_iff
             simp del: not_None_eq split: option.splits)
qed


lemma set_delete: "set (AList.delete k al) = {p \<in> set al. fst p \<noteq> k}"
  by (auto simp: AList.delete_eq)

lemma closed_fields:
  assumes u: "users_ok s" and st: "step s (Closed ws now) = Some s'"
  shows "readyState s' = (readyState s)(ws := CLOSED) \<and> listening s' = listening s \<and>
     wsUser s' = wsUser s \<and> bannedUids s' = bannedUids s \<and>
     clients s' = (if ws \<in> listening s then AList.delete ws (clients s) else clients s) \<and>
     (speaker s' = speaker s \<or> speaker s' = None) \<and>
     set (requestQueue s') \<subseteq> set (requestQueue s) \<and>
     (hostWs s' = hostWs s \<and> isSessionActive s' = isSessionActive s \<or>
      hostWs s' = None \<and> \<not> isSessionActive s')"
proof (cases "ws \<in> listening s")
  case False
  with st show ?thesis by auto
next
  case True
  define s1 where "s1 = s\<lparr>readyState := (readyState s)(ws := CLOSED),
                            wssClients := removeAll ws (wssClients s)\<rparr>"
  from True u obtain usr where usr: "wsUser s1 ws = Some usr"
    by (auto simp: users_ok_def s1_def)
  from st True have hd: "handleDisconnect s1 ws now = Some s'"
    by (simp add: s1_def)
  note f = handleDisconnect_fields [OF hd usr]
  show ?thesis
    using True by (auto simp: f s1_def)
qed

lemma coherent_closed:
  assumes coh: "coherent s" and st: "step s (Closed ws now) = Some s'"
  shows "coherent s'"
proof -
  from coh have u: "users_ok s" and r: "refs_ok s" by (simp_all add: coherent_def)
  from closed_fields [OF u st]
  have rs': "readyState s' = (readyState s)(ws := CLOSED)"
    and li': "listening s' = listening s" and us': "wsUser s' = wsUser s"
    and bn': "bannedUids s' = bannedUids s"
    and cl': "clients s' = (if ws \<in> listening s then AList.delete ws (clients s) else clients s)"
    and sp': "speaker s' = speaker s \<or> speaker s' = None"
    and rq': "set (requestQueue s') \<subseteq> set (requestQueue s)"
    and ho': "hostWs s' = hostWs s \<and> isSessionActive s' = isSessionActive s \<or>
              hostWs s' = None \<and> \<not> isSessionActive s'"
    by simp_all
  show ?thesis
  proof (rule coherent_mono [OF coh li' us'])
    show "set (clients s') \<subseteq> set (clients s)"
      by (auto simp: cl' set_delete)
    show "readyState s c = OPEN" if "readyState s' c = OPEN" for c
      using that by (auto simp: rs' split: if_splits)
    show "readyState s c = CONNECTING" if "readyState s' c = CONNECTING" for c
      using that by (auto simp: rs' split: if_splits)
    show "(c, v) \<in> set (clients s')"
      if "(c, v) \<in> set (clients s)" "readyState s' c = OPEN" for c v
      using that by (auto simp: rs' cl' set_delete split: if_splits)
    show "refs_ok s'"
      using r sp' rq' ho' li' unfolding refs_ok_def by auto
    show "map_of (bannedUids s) v \<noteq> None \<or>
          (\<forall>c. (c, v) \<in> set (clients s) \<longrightarrow> readyState s' c \<noteq> OPEN)"
      if "map_of (bannedUids s') v \<noteq> None" for v
      using that by (simp add: bn')
  qed
qed

lemma closed_progress:
  assumes "coherent s"
  shows "step s (Closed ws now) \<noteq> None"
proof -
  from assms have "\<forall>c \<in> set (requestQueue s). wsUser s c \<noteq> None"
    by (auto simp: coherent_def users_ok_def refs_ok_def)
  then show ?thesis
    by (simp add: Let_def handleDisconnect_progress del: not_None_eq)
qed

subsection \<open>Admission keeps the state consistent\<close>

lemma update_fresh: "k \<notin> fst ` set al \<Longrightarrow> AList.update k v al = al @ [(k, v)]"
  by (induction al) auto

lemma closeDuplicate_fields [simp]:
  "speaker (closeDuplicate s u) = speaker s"
  "speakQueue (closeDuplicate s u) = speakQueue s"
  "requestQueue (closeDuplicate s u) = requestQueue s"
  "hostWs (closeDuplicate s u) = hostWs s"
  "isSessionActive (closeDuplicate s u) = isSessionActive s"
  "bannedUids (closeDuplicate s u) = bannedUids s"
  "lastSpeakTimeMap (closeDuplicate s u) = lastSpeakTimeMap s"
  "shutdownTimer (closeDuplicate s u) = shutdownTimer s"
  "serverIP (closeDuplicate s u) = serverIP s"
  "wsUser (closeDuplicate s u) = wsUser s"
  "listening (closeDuplicate s u) = listening s"
  "wssClients (closeDuplicate s u) = wssClients s"
  "timers (closeDuplicate s u) = timers s"
  "nextTimer (closeDuplicate s u) = nextTimer s"
  "exited (closeDuplicate s u) = exited s"
  by (simp_all add: closeDuplicate_def split: option.splits)

lemma readyState_closeDuplicate:
  "readyState (closeDuplicate s u) c =
     (if findClientByUid s u = Some c then CLOSING else readyState s c)"
  by (auto simp: closeDuplicate_def readyState_ws_close split: option.splits
           dest: findClientByUid_SomeD)

lemma clients_closeDuplicate:
  "clients (closeDuplicate s u) =
     (case findClientByUid s u of None \<Rightarrow> clients s
      | Some existingClient \<Rightarrow> AList.delete existingClient (clients s))"
  by (simp add: closeDuplicate_def split: option.splits)

lemma closeDuplicate_no_open:
  assumes "registry_ok s" and "(c, u) \<in> set (clients (closeDuplicate s u))"
  shows "readyState (closeDuplicate s u) c \<noteq> OPEN"
proof (cases "findClientByUid s u")
  case None
  with assms(2) show ?thesis
    by (auto simp: readyState_closeDuplicate clients_closeDuplicate dest: findClientByUid_NoneD)
next
  case (Some ex)
  then have ex: "(ex, u) \<in> set (clients s)" "readyState s ex = OPEN"
    by (auto dest: findClientByUid_SomeD)
  from assms(2) Some have c: "(c, u) \<in> set (clients s)" "c \<noteq> ex"
    by (auto simp: clients_closeDuplicate set_delete)
  with assms(1) ex have "readyState s c \<noteq> OPEN"
    unfolding registry_ok_def by blast
  with Some c show ?thesis by (simp add: readyState_closeDuplicate)
qed

lemma coherent_closeDuplicate:
  assumes "coherent s"
  shows "coherent (closeDuplicate s u)"
proof (rule coherent_mono [OF assms])
  let ?s' = "closeDuplicate s u"
  show "listening ?s' = listening s" "wsUser ?s' = wsUser s" by simp_all
  show "set (clients ?s') \<subseteq> set (clients s)"
    by (auto simp: clients_closeDuplicate set_delete split: option.splits)
  show "readyState s c = OPEN" if "readyState ?s' c = OPEN" for c
    using that by (auto simp: readyState_closeDuplicate split: if_splits)
  show "readyState s c = CONNECTING" if "readyState ?s' c = CONNECTING" for c
    using that by (auto simp: readyState_closeDuplicate split: if_splits)
  show "(c, v) \<in> set (clients ?s')"
    if "(c, v) \<in> set (clients s)" "readyState ?s' c = OPEN" for c v
    using that
    by (auto simp: readyState_closeDuplicate clients_closeDuplicate set_delete
             split: if_splits option.splits)
  show "refs_ok ?s'"
    using assms by (simp add: coherent_def refs_ok_def)
  show "map_of (bannedUids s) v \<noteq> None \<or>
        (\<forall>c. (c, v) \<in> set (clients s) \<longrightarrow> readyState ?s' c \<noteq> OPEN)"
    if "map_of (bannedUids ?s') v \<noteq> None" for v
    using that by simp
qed

text \<open>Closing a socket that has no listeners keeps the state consistent.\<close>

lemma coherent_reject:
  assumes "coherent s"
  shows "coherent (ws_close (send s ws m) ws)"
proof (rule coherent_mono [OF assms])
  let ?s' = "ws_close (send s ws m) ws"
  show "listening ?s' = listening s" "wsUser ?s' = wsUser s" by simp_all
  show "set (clients ?s') \<subseteq> set (clients s)" by simp
  show "readyState s c = OPEN" if "readyState ?s' c = OPEN" for c
    using that by (auto simp: readyState_ws_close split: if_splits)
  show "readyState s c = CONNECTING" if "readyState ?s' c = CONNECTING" for c
    using that by (auto simp: readyState_ws_close split: if_splits)
  show "(c, v) \<in> set (clients ?s')" if "(c, v) \<in> set (clients s)" for c v
    using that by simp
  show "refs_ok ?s'"
    using assms by (simp add: coherent_def refs_ok_def)
  show "map_of (bannedUids s) v \<noteq> None \<or>
        (\<forall>c. (c, v) \<in> set (clients s) \<longrightarrow> readyState ?s' c \<noteq> OPEN)"
    if "map_of (bannedUids ?s') v \<noteq> None" for v
    using that by simp
qed


lemma handleConnection_banned:
  "map_of (bannedUids s) (uid usr) \<noteq> None \<Longrightarrow>
   handleConnection s ws usr =
     Some (ws_close (send s ws (SystemError ''You have been kicked from this session.'')) ws)"
  by (simp add: handleConnection_def)

lemma handleConnection_second_lecturer:
  "map_of (bannedUids s) (uid usr) = None \<Longrightarrow>
   isLecturer usr \<Longrightarrow> lecturerPresent (closeDuplicate s (uid usr)) \<Longrightarrow>
   handleConnection s ws usr =
     Some (ws_close
            (send (closeDuplicate s (uid usr)) ws (SystemError
               ''A lecturer is already in the session. Only one lecturer is allowed.'')) ws)"
  by (simp add: handleConnection_def)

lemma handleConnection_admitted:
  assumes "handleConnection s ws usr = Some s'"
    and "map_of (bannedUids s) (uid usr) = None"
    and "\<not> (isLecturer usr \<and> lecturerPresent (closeDuplicate s (uid usr)))"
  shows "wsUser s' = (wsUser s)(ws \<mapsto> usr)"
    "clients s' = AList.update ws (uid usr) (clients (closeDuplicate s (uid usr)))"
    "listening s' = insert ws (listening s)"
    "readyState s' = readyState (closeDuplicate s (uid usr))"
    "speaker s' = speaker s" "speakQueue s' = speakQueue s" "requestQueue s' = requestQueue s"
    "hostWs s' = hostWs s" "isSessionActive s' = isSessionActive s"
    "bannedUids s' = bannedUids s" "lastSpeakTimeMap s' = lastSpeakTimeMap s"
    "shutdownTimer s' = shutdownTimer s" "serverIP s' = serverIP s"
    "wssClients s' = wssClients s" "timers s' = timers s" "nextTimer s' = nextTimer s"
    "exited s' = exited s"
  using assms
  by (auto simp: handleConnection_def Let_def split: option.splits if_splits
           dest!: broadcastRequestQueue_SomeD)

lemma handleConnection_progress:
  "hostWs s \<noteq> Some ws \<Longrightarrow> handleConnection s ws usr \<noteq> None"
  by (simp add: handleConnection_def Let_def)

lemma coherent_handleConnection:
  assumes coh: "coherent s" and fresh: "ws \<notin> listening s" and op: "readyState s ws = OPEN"
    and hc: "handleConnection s ws usr = Some s'"
  shows "coherent s'"
proof (cases "map_of (bannedUids s) (uid usr) \<noteq> None")
  case True
  with hc coh show ?thesis
    by (auto simp: handleConnection_banned coherent_reject)
next
  case nb: False
  define s1 where "s1 = closeDuplicate s (uid usr)"
  have coh1: "coherent s1"
    unfolding s1_def using coh by (rule coherent_closeDuplicate)
  show ?thesis
  proof (cases "isLecturer usr \<and> lecturerPresent s1")
    case True
    with hc nb coh1 show ?thesis
      by (auto simp: handleConnection_second_lecturer s1_def coherent_reject)
  next
    case False
    note f = handleConnection_admitted [OF hc, folded s1_def]
    from nb False have nb': "map_of (bannedUids s) (uid usr) = None"
      and nl: "\<not> (isLecturer usr \<and> lecturerPresent s1)" by simp_all
    note f = f [OF nb' nl]
    from coh1 have u1: "users_ok s1" and r1: "refs_ok s1" and g1: "registry_ok s1"
      and b1: "bans_ok s1" by (simp_all add: coherent_def)
    from coh have g: "registry_ok s" by (simp add: coherent_def)
    have li1: "listening s1 = listening s" and us1: "wsUser s1 = wsUser s"
      by (simp_all add: s1_def)
    have nokey: "ws \<notin> fst ` set (clients s1)"
      using g1 fresh li1 unfolding registry_ok_def by force
    have cl': "clients s' = clients s1 @ [(ws, uid usr)]"
      using f(2) nokey by (simp add: update_fresh)
    have notdup: "findClientByUid s (uid usr) \<noteq> Some ws"
      using g fresh unfolding registry_ok_def by (auto dest!: findClientByUid_SomeD)
    have op1: "readyState s1 ws = OPEN"
      using op notdup by (simp add: s1_def readyState_closeDuplicate)
    have noopen: "readyState s1 c \<noteq> OPEN" if "(c, uid usr) \<in> set (clients s1)" for c
      using closeDuplicate_no_open [OF g] that unfolding s1_def by blast
    have u': "users_ok s'"
      using u1 op1 li1 us1 unfolding users_ok_def by (auto simp: f)
    have r': "refs_ok s'"
      using r1 li1 unfolding refs_ok_def by (auto simp: f s1_def)
    have g': "registry_ok s'"
      unfolding registry_ok_def
    proof (intro conjI allI impI ballI)
      fix c v assume "(c, v) \<in> set (clients s')"
      then show "c \<in> listening s'" "map_option uid (wsUser s' c) = Some v"
        using g1 nokey li1 us1 unfolding registry_ok_def
        by (auto simp: f(1,3) cl' intro: rev_image_eqI)
    next
      fix c assume "c \<in> listening s'" "readyState s' c = OPEN"
      then show "c \<in> fst ` set (clients s')"
        using g1 li1 unfolding registry_ok_def
        by (auto simp: f(3,4) cl' s1_def [symmetric])
    next
      fix c1 c2 v
      assume a: "(c1, v) \<in> set (clients s')" "(c2, v) \<in> set (clients s')"
        "readyState s' c1 = OPEN" "readyState s' c2 = OPEN"
      then have o: "readyState s1 c1 = OPEN" "readyState s1 c2 = OPEN"
        by (simp_all add: f(4) s1_def [symmetric])
      from a(1,2) consider "c1 = ws" "c2 = ws"
        | "(c1, v) \<in> set (clients s1)" "(c2, v) \<in> set (clients s1)"
        | "(c1, v) \<in> set (clients s1)" "c2 = ws" "v = uid usr"
        | "c1 = ws" "v = uid usr" "(c2, v) \<in> set (clients s1)"
        by (auto simp: cl')
      then show "c1 = c2"
      proof cases
        case 1 then show ?thesis by simp
      next
        case 2 with g1 o show ?thesis unfolding registry_ok_def by blast
      next
        case 3 with noopen o show ?thesis by blast
      next
        case 4 with noopen o show ?thesis by blast
      qed
    qed
    have bn1: "bannedUids s1 = bannedUids s" by (simp add: s1_def)
    have b': "bans_ok s'"
      using b1 nb' li1 us1 bn1 unfolding bans_ok_def
      by (auto simp: f s1_def [symmetric] split: if_splits)
    from u' r' g' b' show ?thesis by (simp add: coherent_def)
  qed
qed

subsection \<open>Every reachable state is consistent\<close>

lemma coherent_opened:
  assumes coh: "coherent s" and fresh: "readyState s ws = CONNECTING"
  shows "coherent (s\<lparr>readyState := (readyState s)(ws := OPEN), wssClients := cs\<rparr>)"
    and "ws \<notin> listening s"
proof -
  from coh have u: "users_ok s" and r: "refs_ok s" and g: "registry_ok s" and b: "bans_ok s"
    by (simp_all add: coherent_def)
  show nl: "ws \<notin> listening s"
    using u fresh unfolding users_ok_def by auto
  have nk: "(ws, v) \<notin> set (clients s)" for v
    using g nl unfolding registry_ok_def by blast
  let ?s0 = "s\<lparr>readyState := (readyState s)(ws := OPEN), wssClients := cs\<rparr>"
  have "users_ok ?s0"
    using u nl unfolding users_ok_def by auto
  moreover have "refs_ok ?s0"
    using r unfolding refs_ok_def by simp
  moreover have "registry_ok ?s0"
    using g nl nk unfolding registry_ok_def by (simp; blast)
  moreover have "bans_ok ?s0"
    using b nl unfolding bans_ok_def by auto
  ultimately show "coherent ?s0" by (simp add: coherent_def)
qed

lemma coherent_step:
  assumes "coherent s" and "enabled s e" and "step s e = Some s'"
  shows "coherent s'"
proof (cases e)
  case (Connection ws usr)
  with assms(2) have fresh: "readyState s ws = CONNECTING" by simp
  let ?s0 = "s\<lparr>readyState := (readyState s)(ws := OPEN), wssClients := wssClients s @ [ws]\<rparr>"
  from coherent_opened [OF assms(1) fresh]
  have "coherent ?s0" "ws \<notin> listening ?s0" by simp_all
  moreover have "readyState ?s0 ws = OPEN" by simp
  moreover from assms(3) Connection have "handleConnection ?s0 ws usr = Some s'" by simp
  ultimately show ?thesis by (rule coherent_handleConnection)
next
  case (Message ws m now)
  with assms show ?thesis by (auto intro: coherent_handleMessage)
next
  case (Closed ws now)
  with assms show ?thesis by (auto intro: coherent_closed simp del: step.simps)
next
  case (Timeout t)
  with assms(3) have "coherent s' = coherent s"
    by (intro coherent_cong) (auto split: if_splits)
  with assms(1) show ?thesis by simp
qed

lemma coherent_initial: "coherent (initial ip)"
  by (simp add: coherent_def users_ok_def refs_ok_def registry_ok_def bans_ok_def initial_def)

lemma reachable_coherent: "reachable s \<Longrightarrow> coherent s"
  by (induction rule: reachable.induct) (auto intro: coherent_initial coherent_step)

text \<open>No handler throws in a consistent state: every enabled event is processed.\<close>

lemma step_progress:
  assumes "coherent s" and "enabled s e"
  shows "step s e \<noteq> None"
proof (cases e)
  case (Connection ws usr)
  with assms(2) have fresh: "readyState s ws = CONNECTING" by simp
  from coherent_opened(2) [OF assms(1) fresh] assms(1)
  have "hostWs s \<noteq> Some ws" by (auto simp: coherent_def refs_ok_def)
  then show ?thesis
    using Connection by (simp add: handleConnection_progress del: not_None_eq)
next
  case (Message ws m now)
  with assms show ?thesis
    by (simp add: coherent_def handleMessage_progress del: not_None_eq)
next
  case (Closed ws now)
  with assms(1) show ?thesis by (simp add: closed_progress del: step.simps not_None_eq)
next
  case (Timeout t)
  then show ?thesis by simp
qed

lemma exec_reachable: "reachable s \<Longrightarrow> exec s es = Some s' \<Longrightarrow> reachable s'"
proof (induction es arbitrary: s)
  case Nil
  then show ?case by simp
next
  case (Cons e es)
  from Cons.prems(2) obtain s1 where e: "enabled s e" "step s e = Some s1" "exec s1 es = Some s'"
    by (auto split: if_splits option.splits)
  from Cons.prems(1) e(1,2) have "reachable s1" by (rule reachable_step)
  then show ?case using e(3) by (rule Cons.IH)
qed

lemma reachable_boot: "reachable boot"
  unfolding boot_def by (rule reachable_initial)

lemma exec_snoc:
  "exec s (es @ [e]) =
     (case exec s es of None \<Rightarrow> None
      | Some s1 \<Rightarrow> if enabled s1 e then step s1 e else None)"
  by (induction es arbitrary: s) (auto split: option.splits)

lemma closed_removes:
  assumes "coherent s" and "c \<in> listening s" and "step s (Closed c now) = Some s'"
  shows "speaker s' \<noteq> Some c \<and> c \<notin> set (requestQueue s') \<and> c \<notin> fst ` set (clients s')"
proof -
  define s1 where "s1 = s\<lparr>readyState := (readyState s)(c := CLOSED),
                            wssClients := removeAll c (wssClients s)\<rparr>"
  from assms(1,2) obtain usr where usr: "wsUser s1 c = Some usr"
    by (auto simp: coherent_def users_ok_def s1_def)
  from assms(2,3) have hd: "handleDisconnect s1 c now = Some s'"
    by (simp add: s1_def)
  note f = handleDisconnect_fields [OF hd usr]
  show ?thesis
    by (auto simp: f set_delete)
qed

subsection \<open>Floor control\<close>

text \<open>
  C1. The speaker slot and the request queue should be disjoint in every reachable state,
  every grant path removing the target from the queue. \<^verbatim>\<open>grantMic\<close> does so; the
  \<^verbatim>\<open>admin-grant-floor\<close> case of \<^verbatim>\<open>handleMessage\<close> sets the speaker and leaves the queue
  alone. After the opening of the session (student 1 speaks, student 2 is queued) the
  host grants the floor to student 2: socket 2 then holds the speaker slot and is still
  in the request queue.
\<close>

theorem admin_grant_leaves_target_queued:
  "map_option speaker (exec boot (warmup @ [Message 0 (AdminGrantFloor ''b'') 400]))
     = Some (Some 2) \<and>
   map_option requestQueue (exec boot (warmup @ [Message 0 (AdminGrantFloor ''b'') 400]))
     = Some [2]"
  by (simp add: run_defs)

text \<open>
  Every other step keeps the speaker out of the request queue: only the
  \<^verbatim>\<open>admin-grant-floor\<close> message can put a queued socket into the speaker slot.
\<close>

lemma handleMessage_disjoint:
  assumes "handleMessage s ws m now = Some s'"
    and "\<forall>c. speaker s = Some c \<longrightarrow> c \<notin> set (requestQueue s)"
    and "\<forall>u. m \<noteq> AdminGrantFloor u"
  shows "\<forall>c. speaker s' = Some c \<longrightarrow> c \<notin> set (requestQueue s')"
  using assms
  by (cases m)
     (auto simp: handler_defs Let_def split: option.splits if_splits
           dest!: broadcastRequestQueue_SomeD logEvent_SomeD)

lemma step_disjoint:
  assumes "step s e = Some s'"
    and "\<forall>c. speaker s = Some c \<longrightarrow> c \<notin> set (requestQueue s)"
    and "\<forall>ws u now. e \<noteq> Message ws (AdminGrantFloor u) now"
  shows "\<forall>c. speaker s' = Some c \<longrightarrow> c \<notin> set (requestQueue s')"
proof (cases e)
  case (Connection ws usr)
  with assms(1,2) show ?thesis
    by (auto simp: handleConnection_def Let_def split: option.splits if_splits
             dest!: broadcastRequestQueue_SomeD)
next
  case (Message ws m now)
  with assms(3) have "\<forall>u. m \<noteq> AdminGrantFloor u" by auto
  with Message assms(1,2) show ?thesis
    using handleMessage_disjoint [of s ws m now s'] by simp
next
  case (Closed ws now)
  show ?thesis
  proof (cases "ws \<in> listening s \<and> wsUser s ws \<noteq> None")
    case True
    then obtain usr where usr: "wsUser (s\<lparr>readyState := (readyState s)(ws := CLOSED),
            wssClients := removeAll ws (wssClients s)\<rparr>) ws = Some usr" by auto
    from True Closed assms(1) have hd: "handleDisconnect
        (s\<lparr>readyState := (readyState s)(ws := CLOSED),
            wssClients := removeAll ws (wssClients s)\<rparr>) ws now = Some s'"
      by simp
    note f = handleDisconnect_fields [OF hd usr]
    from assms(2) show ?thesis by (auto simp: f)
  next
    case False
    with Closed assms(1,2) show ?thesis
      by (auto simp: handleDisconnect_no_user Let_def split: if_splits)
  qed
next
  case (Timeout t)
  with assms(1,2) show ?thesis by (auto split: if_splits)
qed

text \<open>
  C2 (as the code has it). A request to speak that arrives while a host is registered
  and the session is inactive (the host has paused it) is dropped: the state, log of
  sent frames included, is exactly the state before. No error reply is sent. The case with no host registered is left aside: the
  reply \<^verbatim>\<open>Lecturer disconnected.\<close> that \<^verbatim>\<open>handleRequestToSpeak\<close> has for it sits behind
  the same guard and is never reached.
\<close>

theorem request_paused_silent:
  "\<not> isSessionActive s \<Longrightarrow> hostWs s = Some h \<Longrightarrow>
   step s (Message c RequestToSpeak now) = Some s"
  by simp

text \<open>
  C2 (as the code has it) at a concrete state: the lecturer hosts, student \<open>a\<close> is
  admitted on socket 1, which is open, and the host has paused the session.
\<close>

theorem request_paused_silent_witness:
  "case exec boot pausedLobby of
     None \<Rightarrow> False
   | Some s \<Rightarrow>
       \<not> isSessionActive s \<and> hostWs s = Some 0 \<and> 1 \<in> listening s \<and>
       readyState s 1 = OPEN \<and> wsUser s 1 = Some studentA \<and>
       step s (Message 1 RequestToSpeak 400) = Some s"
proof -
  have ev: "map_option (\<lambda>s. (isSessionActive s, hostWs s, 1 \<in> listening s, readyState s 1,
                               wsUser s 1)) (exec boot pausedLobby)
              = Some (False, Some 0, True, OPEN, Some studentA)"
    by (simp add: run_defs)
  then obtain s where s: "exec boot pausedLobby = Some s" by auto
  with ev have f: "\<not> isSessionActive s" "hostWs s = Some 0" "1 \<in> listening s"
    "readyState s 1 = OPEN" "wsUser s 1 = Some studentA"
    by simp_all
  from request_paused_silent [OF f(1,2), of 1 400] s f show ?thesis
    by (simp del: step.simps)
qed

text \<open>
  C2 does not hold as specified: in that paused session, with the host present, student
  \<open>a\<close> asks for the floor. The frames ever sent to socket 1 are those of the admission
  and the status broadcast of the pause; the request produces no error reply.
\<close>

theorem request_paused_no_error_reply:
  "map_option hostWs (exec boot pausedLobby) = Some (Some 0) \<and>
   map_option isSessionActive (exec boot pausedLobby) = Some False \<and>
   map_option (sentTo 1 \<circ> effects) (exec boot (pausedLobby @ [Message 1 RequestToSpeak 400])) =
     Some [SystemSessionStatus True, SystemWelcome studentA ''10.0.0.1'',
           SystemSpeakerUpdate None, SystemSessionStatus False]"
  by (simp add: run_defs)

text \<open>
  C10. A \<^verbatim>\<open>finished-speaking\<close> message from a socket that has its identity changes nothing
  but the log: it adds one statistics call when the sender is the current speaker and
  nothing otherwise. In particular the floor is not released.
\<close>

theorem finished_speaking_frame:
  "wsUser s c = Some usr \<Longrightarrow>
   step s (Message c FinishedSpeaking now) =
     Some (emit s (if speaker s = Some c
                   then [Stats (LogEvent ''SPEAK_FINISHED'' (uid usr))] else []))"
  by (simp add: handleFinishedSpeaking_def logEvent_def emit_def)

theorem finished_speaking_frame_witness:
  "wsUser (boot\<lparr>wsUser := [1 \<mapsto> studentA], speaker := Some 1\<rparr>) 1 = Some studentA \<and>
   step (boot\<lparr>wsUser := [1 \<mapsto> studentA], speaker := Some 1\<rparr>) (Message 1 FinishedSpeaking 9) =
     Some (emit (boot\<lparr>wsUser := [1 \<mapsto> studentA], speaker := Some 1\<rparr>)
             [Stats (LogEvent ''SPEAK_FINISHED'' ''a'')])"
  using finished_speaking_frame
          [of "boot\<lparr>wsUser := [1 \<mapsto> studentA], speaker := Some 1\<rparr>" 1 studentA 9]
  by (simp add: studentA_def)

text \<open>
  C8. In a reachable state, a \<^verbatim>\<open>release-floor\<close> from the current speaker and the close
  event of the current speaker's socket are processed and leave the speaker slot empty
  and the cooldown entry of the speaker's uid at the time of the event; an
  \<^verbatim>\<open>admin-release-floor\<close> from the host is processed, leaves the speaker slot empty, and
  sets the cooldown entry of the prior speaker's uid, when there was a speaker, to the
  time of the event.
\<close>

theorem release_clears_speaker_and_records_cooldown:
  assumes r: "reachable s"
  shows "(\<forall>c usr. speaker s = Some c \<and> wsUser s c = Some usr \<longrightarrow>
            (\<exists>s'. step s (Message c ReleaseFloor now) = Some s' \<and> speaker s' = None \<and>
                   lastSpeakTimeMap s' (uid usr) = Some now) \<and>
            (\<exists>s'. step s (Closed c now) = Some s' \<and> speaker s' = None \<and>
                   lastSpeakTimeMap s' (uid usr) = Some now)) \<and>
         (\<forall>h. hostWs s = Some h \<longrightarrow>
            (\<exists>s'. step s (Message h AdminReleaseFloor now) = Some s' \<and> speaker s' = None \<and>
                   (\<forall>c usr. speaker s = Some c \<and> wsUser s c = Some usr \<longrightarrow>
                      lastSpeakTimeMap s' (uid usr) = Some now)))"
proof (intro conjI allI impI)
  fix c usr assume a: "speaker s = Some c \<and> wsUser s c = Some usr"
  then show "\<exists>s'. step s (Message c ReleaseFloor now) = Some s' \<and> speaker s' = None \<and>
                   lastSpeakTimeMap s' (uid usr) = Some now"
    by (simp add: handleReleaseFloor_def)
  from r have coh: "coherent s" by (rule reachable_coherent)
  with a have cl: "c \<in> listening s" by (auto simp: coherent_def refs_ok_def)
  define s1 where "s1 = s\<lparr>readyState := (readyState s)(c := CLOSED),
                            wssClients := removeAll c (wssClients s)\<rparr>"
  from closed_progress [OF coh, of c now] obtain s' where s': "step s (Closed c now) = Some s'"
    by auto
  with cl have hd: "handleDisconnect s1 c now = Some s'" by (simp add: s1_def)
  from a have usr: "wsUser s1 c = Some usr" by (simp add: s1_def)
  note f = handleDisconnect_fields [OF hd usr]
  from a have "speaker s' = None" "lastSpeakTimeMap s' (uid usr) = Some now"
    by (simp_all add: f s1_def)
  with s' show "\<exists>s'. step s (Closed c now) = Some s' \<and> speaker s' = None \<and>
                   lastSpeakTimeMap s' (uid usr) = Some now"
    by blast
next
  fix h assume h: "hostWs s = Some h"
  from r have coh: "coherent s" by (rule reachable_coherent)
  show "\<exists>s'. step s (Message h AdminReleaseFloor now) = Some s' \<and> speaker s' = None \<and>
                   (\<forall>c usr. speaker s = Some c \<and> wsUser s c = Some usr \<longrightarrow>
                      lastSpeakTimeMap s' (uid usr) = Some now)"
  proof (cases "speaker s")
    case None
    with h show ?thesis by simp
  next
    case (Some c)
    with coh obtain usr where "wsUser s c = Some usr"
      by (auto simp: coherent_def refs_ok_def users_ok_def)
    with h Some show ?thesis by simp
  qed
qed

text \<open>
  C8 at a concrete state: the lecturer hosts, student \<open>a\<close> on socket 1 holds the floor.
\<close>

theorem release_clears_speaker_and_records_cooldown_witness:
  "case exec boot floorHeld of
     None \<Rightarrow> False
   | Some s \<Rightarrow>
       reachable s \<and> speaker s = Some 1 \<and> wsUser s 1 = Some studentA \<and> hostWs s = Some 0 \<and>
       map_option speaker (step s (Message 1 ReleaseFloor 500)) = Some None \<and>
       map_option speaker (step s (Closed 1 500)) = Some None \<and>
       map_option speaker (step s (Message 0 AdminReleaseFloor 500)) = Some None \<and>
       map_option (\<lambda>s'. lastSpeakTimeMap s' ''a'') (step s (Message 1 ReleaseFloor 500))
         = Some (Some 500) \<and>
       map_option (\<lambda>s'. lastSpeakTimeMap s' ''a'') (step s (Closed 1 500)) = Some (Some 500) \<and>
       map_option (\<lambda>s'. lastSpeakTimeMap s' ''a'') (step s (Message 0 AdminReleaseFloor 500))
         = Some (Some 500)"
proof -
  have ev: "map_option (\<lambda>s. (speaker s, wsUser s 1, hostWs s)) (exec boot floorHeld)
              = Some (Some 1, Some studentA, Some 0)"
    by (simp add: run_defs)
  then obtain s where s: "exec boot floorHeld = Some s" by auto
  with ev have f: "speaker s = Some 1" "wsUser s 1 = Some studentA" "hostWs s = Some 0"
    by simp_all
  from reachable_boot s have r: "reachable s" by (rule exec_reachable)
  from release_clears_speaker_and_records_cooldown [OF r, of 500] f
  have "(\<exists>s'. step s (Message 1 ReleaseFloor 500) = Some s' \<and> speaker s' = None \<and>
                   lastSpeakTimeMap s' ''a'' = Some 500)"
    "(\<exists>s'. step s (Closed 1 500) = Some s' \<and> speaker s' = None \<and>
                   lastSpeakTimeMap s' ''a'' = Some 500)"
    "(\<exists>s'. step s (Message 0 AdminReleaseFloor 500) = Some s' \<and> speaker s' = None \<and>
                   lastSpeakTimeMap s' ''a'' = Some 500)"
    by (auto simp: studentA_def simp del: step.simps)
  with s r f show ?thesis
    by (auto simp del: step.simps)
qed

text \<open>
  C9 (as the code has it). In a reachable state where the session is active, a further
  request to speak from the open socket that holds the floor logs the request, resends
  the grant and logs a speak pulse, and changes nothing but the log.
\<close>

theorem speaker_request_reacks:
  assumes "reachable s" and "speaker s = Some c" and "wsUser s c = Some usr"
    and "isSessionActive s" and "readyState s c = OPEN"
  shows "step s (Message c RequestToSpeak now) =
           Some (emit s [Stats (LogEvent ''REQUEST_TO_SPEAK'' (uid usr)),
                         Send c SystemSpeakGranted,
                         Stats (LogEvent ''SPEAK_PULSE'' (uid usr))])"
proof -
  from assms(1) have "coherent s" by (rule reachable_coherent)
  with assms(4) obtain h where "hostWs s = Some h"
    by (auto simp: coherent_def refs_ok_def)
  with assms show ?thesis
    by (simp add: handleRequestToSpeak_def logEvent_def send_def emit_def)
qed

text \<open>C9 (as the code has it) at the state where student \<open>a\<close> holds the floor.\<close>

theorem speaker_request_reacks_witness:
  "case exec boot floorHeld of
     None \<Rightarrow> False
   | Some s \<Rightarrow>
       reachable s \<and> speaker s = Some 1 \<and> wsUser s 1 = Some studentA \<and>
       isSessionActive s \<and> readyState s 1 = OPEN \<and>
       step s (Message 1 RequestToSpeak 500) =
         Some (emit s [Stats (LogEvent ''REQUEST_TO_SPEAK'' ''a''),
                       Send 1 SystemSpeakGranted,
                       Stats (LogEvent ''SPEAK_PULSE'' ''a'')])"
proof -
  have ev: "map_option (\<lambda>s. (speaker s, wsUser s 1, isSessionActive s, readyState s 1))
              (exec boot floorHeld) = Some (Some 1, Some studentA, True, OPEN)"
    by (simp add: run_defs)
  then obtain s where s: "exec boot floorHeld = Some s" by auto
  with ev have f: "speaker s = Some 1" "wsUser s 1 = Some studentA" "isSessionActive s"
    "readyState s 1 = OPEN"
    by simp_all
  from reachable_boot s have r: "reachable s" by (rule exec_reachable)
  from speaker_request_reacks [OF r f, of 500] s r f show ?thesis
    by (simp add: studentA_def del: step.simps)
qed

text \<open>
  C9 does not hold as specified: the host pauses the session while student \<open>a\<close> holds
  the floor. Socket 1 still holds the speaker slot, the session is inactive, and a
  further request to speak from socket 1 leaves the whole state, the log of sent frames
  included, as it was: no grant is resent and no speak pulse is logged.
\<close>

theorem speaker_request_while_paused_silent:
  "map_option speaker (exec boot paused) = Some (Some 1) \<and>
   map_option isSessionActive (exec boot paused) = Some False \<and>
   exec boot (paused @ [Message 1 RequestToSpeak 400]) = exec boot paused"
  by (simp add: run_defs)

subsection \<open>Signalling relay\<close>

text \<open>
  C6 (as the code has it). An ICE candidate from a sender that is not the host is never
  sent to the uid it names: with or without a target uid it goes to the host, tagged
  with the sender's uid, when a host is registered (and its socket open), and is dropped
  otherwise. Nothing but the log changes.
\<close>

theorem ice_from_non_host:
  "hostWs s \<noteq> Some ws \<Longrightarrow> wsUser s ws = Some usr \<Longrightarrow>
   step s (Message ws (WebrtcIceCandidate candidate targetUid) now) =
     Some (case hostWs s of
             None \<Rightarrow> s
           | Some h \<Rightarrow> send s h (OutWebrtcIceCandidate candidate (Some (uid usr))))"
  by (simp split: option.splits)

text \<open>
  C6 (as the code has it) at a concrete state: after the opening of the session, with
  the host on the open socket 0, student \<open>b\<close> on socket 2 sends a candidate that names uid
  \<open>a\<close>; it is forwarded to the host and to nobody else.
\<close>

theorem ice_from_non_host_witness:
  "case exec boot warmup of
     None \<Rightarrow> False
   | Some s \<Rightarrow>
       hostWs s = Some 0 \<and> readyState s 0 = OPEN \<and> hostWs s \<noteq> Some 2 \<and>
       wsUser s 2 = Some studentB \<and>
       step s (Message 2 (WebrtcIceCandidate ''cand'' (Some ''a'')) 400) =
         Some (emit s [Send 0 (OutWebrtcIceCandidate ''cand'' (Some ''b''))])"
proof -
  have ev: "map_option (\<lambda>s. (hostWs s, readyState s 0, wsUser s 2)) (exec boot warmup)
              = Some (Some 0, OPEN, Some studentB)"
    by (simp add: run_defs)
  then obtain s where s: "exec boot warmup = Some s" by auto
  with ev have f: "hostWs s = Some 0" "readyState s 0 = OPEN" "wsUser s 2 = Some studentB"
    by simp_all
  then have nh: "hostWs s \<noteq> Some 2" by simp
  from ice_from_non_host [OF nh f(3), of "''cand''" "Some ''a''" 400] s f show ?thesis
    by (simp add: send_def studentB_def del: step.simps)
qed

text \<open>
  C6 does not hold as specified: after the opening of the session student 2 sends a
  candidate that names uid \<open>a\<close>. The host's socket, which had received eleven frames,
  receives a twelfth: the candidate, tagged with the sender's uid \<open>b\<close>.
\<close>

theorem ice_from_student_forwarded_to_host:
  "map_option (length \<circ> sentTo 0 \<circ> effects) (exec boot warmup) = Some 11 \<and>
   map_option (drop 11 \<circ> sentTo 0 \<circ> effects)
     (exec boot (warmup @ [Message 2 (WebrtcIceCandidate ''cand'' (Some ''a'')) 400]))
     = Some [OutWebrtcIceCandidate ''cand'' (Some ''b'')]"
  by (simp add: run_defs)

subsection \<open>Admission\<close>

text \<open>
  C7. A reconnecting host should be sent the request queue during admission. The test
  \<^verbatim>\<open>ws === this.hostWs\<close> of \<^verbatim>\<open>handleConnection\<close> compares the new socket with the host
  slot, which a host disconnect has cleared and which only \<^verbatim>\<open>register-as-host\<close> sets.
  After the opening of the session the host's socket closes and the lecturer connects
  again on socket 3: the queue still holds student 2, and the frames sent to socket 3
  are the session status, the welcome and the speaker update only.
\<close>

theorem reconnecting_host_gets_no_queue:
  "map_option requestQueue (exec boot (warmup @ [Closed 0 400, Connection 3 lecturerH]))
     = Some [2] \<and>
   map_option (sentTo 3 \<circ> effects) (exec boot (warmup @ [Closed 0 400, Connection 3 lecturerH]))
     = Some [SystemSessionStatus False, SystemWelcome lecturerH ''10.0.0.1'',
             SystemSpeakerUpdate (Some studentA)]"
  by (simp add: run_defs)

text \<open>
  The socket of a \<^verbatim>\<open>connection\<close> event is never the host slot's socket in a reachable
  state, so the branch of \<^verbatim>\<open>handleConnection\<close> that resends the queue is never taken.
\<close>

lemma admitted_socket_is_not_host:
  assumes "reachable s" and "enabled s (Connection ws usr)"
  shows "hostWs s \<noteq> Some ws"
proof -
  from assms(1) have coh: "coherent s" by (rule reachable_coherent)
  from assms(2) have "readyState s ws = CONNECTING" by simp
  from coherent_opened(2) [OF coh this] coh show ?thesis
    by (auto simp: coherent_def refs_ok_def)
qed

text \<open>
  C5 (as the code has it). When an identity whose uid has an open registered socket is
  admitted again, the old socket is closed and deleted from the registry before the new
  one is registered, and nothing else: the speaker slot and the request queue are as
  they were, and the speaker update sent to the new socket reports whoever is in the
  speaker slot. The old socket leaves the speaker slot and the queue when its close
  event is processed.
\<close>

theorem duplicate_admission_defers_cleanup:
  assumes r: "reachable s" and en: "enabled s (Connection ws usr)"
    and old: "findClientByUid s (uid usr) = Some old"
    and st: "step s (Connection ws usr) = Some s'" and adm: "ws \<in> listening s'"
  shows "readyState s' old = CLOSING \<and> old \<notin> fst ` set (clients s') \<and>
         (ws, uid usr) \<in> set (clients s') \<and>
         speaker s' = speaker s \<and> requestQueue s' = requestQueue s \<and>
         Send ws (SystemSpeakerUpdate (case speaker s of None \<Rightarrow> None
                                       | Some sp \<Rightarrow> wsUser s' sp)) \<in> set (effects s') \<and>
         (\<forall>now. \<exists>s''. step s' (Closed old now) = Some s'' \<and> speaker s'' \<noteq> Some old \<and>
                   old \<notin> set (requestQueue s'') \<and> old \<notin> fst ` set (clients s''))"
proof -
  define s0 where "s0 = s\<lparr>readyState := (readyState s)(ws := OPEN),
                            wssClients := wssClients s @ [ws]\<rparr>"
  from r have coh: "coherent s" by (rule reachable_coherent)
  from en have fresh: "readyState s ws = CONNECTING" by simp
  from coherent_opened [OF coh fresh] have coh0: "coherent s0" and nl: "ws \<notin> listening s"
    by (simp_all add: s0_def)
  from st have hc: "handleConnection s0 ws usr = Some s'" by (simp add: s0_def)
  from coh have g: "registry_ok s" by (simp add: coherent_def)
  from old have oldc: "(old, uid usr) \<in> set (clients s)" "readyState s old = OPEN"
    by (auto dest: findClientByUid_SomeD)
  with g have oldl: "old \<in> listening s" unfolding registry_ok_def by blast
  with nl have neq: "old \<noteq> ws" by auto
  have nokey: "ws \<notin> fst ` set (clients s)"
    using g nl unfolding registry_ok_def by force
  have same_find: "findClientByUid s0 (uid usr) = Some old"
  proof -
    have "find (\<lambda>(client, clientUid). clientUid = uid usr \<and> readyState s0 client = OPEN) (clients s0)
        = find (\<lambda>(client, clientUid). clientUid = uid usr \<and> readyState s client = OPEN) (clients s)"
      using nokey by (force simp: s0_def intro!: find_cong split: if_splits)
    with old show ?thesis by (simp add: findClientByUid_def)
  qed
  have nb: "map_of (bannedUids s0) (uid usr) = None"
  proof (rule ccontr)
    assume "map_of (bannedUids s0) (uid usr) \<noteq> None"
    from handleConnection_banned [OF this, of ws] hc adm nl show False
      by (auto simp: s0_def)
  qed
  have nl2: "\<not> (isLecturer usr \<and> lecturerPresent (closeDuplicate s0 (uid usr)))"
  proof
    assume "isLecturer usr \<and> lecturerPresent (closeDuplicate s0 (uid usr))"
    with handleConnection_second_lecturer [OF nb, of ws] hc adm nl show False
      by (auto simp: s0_def)
  qed
  note f = handleConnection_admitted [OF hc nb nl2]
  have rs: "readyState s' old = CLOSING"
    using same_find by (simp add: f readyState_closeDuplicate)
  have cl: "clients s' = AList.delete old (clients s) @ [(ws, uid usr)]"
    using same_find nokey
    by (auto simp: f clients_closeDuplicate s0_def set_delete intro!: update_fresh)
  have ef: "Send ws (SystemSpeakerUpdate (case speaker s of None \<Rightarrow> None
                                       | Some sp \<Rightarrow> wsUser s' sp)) \<in> set (effects s')"
  proof -
    have "readyState (closeDuplicate s0 (uid usr)) ws = OPEN"
      using same_find neq by (simp add: readyState_closeDuplicate s0_def)
    then show ?thesis
      using hc nb nl2
      by (auto simp: handleConnection_def Let_def send_def emit_def s0_def f(1)
                     broadcastParticipantList_def broadcastRequestQueue_def
               split: option.splits if_splits)
  qed
  from r en st have r': "reachable s'" by (rule reachable_step)
  then have coh': "coherent s'" by (rule reachable_coherent)
  have oldl': "old \<in> listening s'" using oldl by (simp add: f s0_def)
  have after: "\<exists>s''. step s' (Closed old now) = Some s'' \<and> speaker s'' \<noteq> Some old \<and>
                   old \<notin> set (requestQueue s'') \<and> old \<notin> fst ` set (clients s'')" for now
  proof -
    from closed_progress [OF coh', of old now]
    obtain s'' where s'': "step s' (Closed old now) = Some s''" by auto
    from closed_removes [OF coh' oldl' s''] s'' show ?thesis by blast
  qed
  show ?thesis
    using rs ef after neq by (auto simp: cl set_delete f s0_def)
qed

text \<open>
  C5 (as the code has it) at a concrete state: student \<open>a\<close> holds the floor on socket 1
  and connects again on socket 2.
\<close>

theorem duplicate_admission_defers_cleanup_witness:
  "case exec boot floorHeld of
     None \<Rightarrow> False
   | Some s \<Rightarrow>
       (case step s (Connection 2 studentA) of
          None \<Rightarrow> False
        | Some s' \<Rightarrow>
            reachable s \<and> enabled s (Connection 2 studentA) \<and>
            findClientByUid s (uid studentA) = Some 1 \<and> 2 \<in> listening s' \<and>
            readyState s' 1 = CLOSING \<and> speaker s' = Some 1 \<and> 1 \<notin> fst ` set (clients s') \<and>
            Send 2 (SystemSpeakerUpdate (Some studentA)) \<in> set (effects s'))"
proof -
  have ev: "map_option (\<lambda>s. (findClientByUid s ''a'', readyState s 2, exited s, speaker s))
              (exec boot floorHeld) = Some (Some 1, CONNECTING, False, Some 1)"
    by (simp add: run_defs)
  then obtain s where s: "exec boot floorHeld = Some s" by auto
  with ev have f: "findClientByUid s (uid studentA) = Some 1" "readyState s 2 = CONNECTING"
    "\<not> exited s" "speaker s = Some 1"
    by (simp_all add: studentA_def)
  then have en: "enabled s (Connection 2 studentA)" by simp
  from reachable_boot s have r: "reachable s" by (rule exec_reachable)
  have ev2: "map_option (\<lambda>s. (2 \<in> listening s, wsUser s 1)) (exec boot rejoin)
               = Some (True, Some studentA)"
    by (simp add: run_defs)
  then obtain s' where s': "step s (Connection 2 studentA) = Some s'"
    and adm: "2 \<in> listening s'" and u: "wsUser s' 1 = Some studentA"
    using s en by (auto simp: rejoin_def exec_snoc simp del: step.simps)
  from duplicate_admission_defers_cleanup [OF r en f(1) s' adm] f(4) u
  show ?thesis
    using s s' r en f(1) adm by (simp del: step.simps enabled.simps)
qed

text \<open>
  C5 does not hold as specified: after that second connection the speaker slot still
  holds socket 1, and the snapshot sent to socket 2 reports student \<open>a\<close>, the identity of
  the old socket, as the speaker.
\<close>

theorem duplicate_join_reports_old_speaker:
  "map_option speaker (exec boot rejoin) = Some (Some 1) \<and>
   map_option (sentTo 2 \<circ> effects) (exec boot rejoin) =
     Some [SystemSessionStatus True, SystemWelcome studentA ''10.0.0.1'',
           SystemSpeakerUpdate (Some studentA)]"
  by (simp add: run_defs)

subsection \<open>Bans\<close>




subsection \<open>Session lifecycle\<close>

lemma handleMessage_timers:
  "handleMessage s ws m now = Some s' \<Longrightarrow>
     set (timers s') \<subseteq> set (timers s) \<and>
     (m \<noteq> RegisterAsHost \<longrightarrow> timers s' = timers s \<and> shutdownTimer s' = shutdownTimer s) \<and>
     (m \<noteq> RegisterAsHost \<longrightarrow> hostWs s = None \<longrightarrow> hostWs s' = None)"
  by (cases m)
     (auto simp: handler_defs Let_def split: option.splits if_splits
           dest!: broadcastRequestQueue_SomeD logEvent_SomeD)

lemma registerAsHost_clears:
  assumes "handleMessage s ws RegisterAsHost now = Some s'" and "shutdownTimer s = Some t"
  shows "t \<notin> fst ` set (timers s')"
  using assms
  by (auto simp: registerAsHost_def Let_def split: option.splits if_splits
           dest!: broadcastRequestQueue_SomeD)

lemma handleConnection_timers:
  "handleConnection s ws usr = Some s' \<Longrightarrow>
     hostWs s' = hostWs s \<and> shutdownTimer s' = shutdownTimer s \<and> timers s' = timers s \<and>
     nextTimer s' = nextTimer s \<and> exited s' = exited s"
  by (auto simp: handleConnection_def Let_def split: option.splits if_splits
           dest!: broadcastRequestQueue_SomeD)

lemma handleDisconnect_timers:
  assumes "handleDisconnect s ws now = Some s'"
  shows "exited s' = exited s"
    and "hostWs s = None \<Longrightarrow> hostWs s' = None \<and> shutdownTimer s' = shutdownTimer s \<and>
           timers s' = timers s \<and> nextTimer s' = nextTimer s"
    and "t \<notin> fst ` set (timers s) \<Longrightarrow> t < nextTimer s \<Longrightarrow>
           t \<notin> fst ` set (timers s') \<and> t < nextTimer s'"
proof -
  show "exited s' = exited s"
    using assms handleDisconnect_fields(5) [OF assms] handleDisconnect_no_user [of s ws now]
    by (cases "wsUser s ws") auto
  show "hostWs s' = None \<and> shutdownTimer s' = shutdownTimer s \<and>
           timers s' = timers s \<and> nextTimer s' = nextTimer s" if "hostWs s = None"
  proof (cases "wsUser s ws")
    case None
    with assms that show ?thesis by (simp add: handleDisconnect_no_user)
  next
    case (Some usr)
    note f = handleDisconnect_fields [OF assms Some]
    from that show ?thesis by (simp add: f)
  qed
  show "t \<notin> fst ` set (timers s') \<and> t < nextTimer s'"
    if "t \<notin> fst ` set (timers s)" "t < nextTimer s"
  proof (cases "wsUser s ws")
    case None
    with assms that show ?thesis by (simp add: handleDisconnect_no_user)
  next
    case (Some usr)
    note f = handleDisconnect_fields [OF assms Some]
    from that show ?thesis by (auto simp: f)
  qed
qed

text \<open>
  While no host is registered, an event that is neither a timeout nor a host
  registration leaves the pending timeouts and the timer handle of the service alone.
\<close>

lemma step_keeps_timer:
  assumes "step s e = Some s'" and "\<not> isTimeout e" and "\<not> isHostRegistration e"
    and "hostWs s = None"
  shows "hostWs s' = None \<and> shutdownTimer s' = shutdownTimer s \<and> timers s' = timers s \<and>
         nextTimer s' = nextTimer s \<and> exited s' = exited s"
proof (cases e)
  case (Connection ws usr)
  with assms(1) have "handleConnection
      (s\<lparr>readyState := (readyState s)(ws := OPEN), wssClients := wssClients s @ [ws]\<rparr>) ws usr
      = Some s'" by simp
  from handleConnection_timers [OF this] assms(4) show ?thesis by simp
next
  case (Message ws m now)
  with assms(3) have nr: "m \<noteq> RegisterAsHost" by auto
  from Message assms(1) have hm: "handleMessage s ws m now = Some s'" by simp
  from handleMessage_timers [OF hm] handleMessage_frame [OF hm] nr assms(4)
  show ?thesis by simp
next
  case (Closed ws now)
  show ?thesis
  proof (cases "ws \<in> listening s")
    case True
    with Closed assms(1) have "handleDisconnect
        (s\<lparr>readyState := (readyState s)(ws := CLOSED),
            wssClients := removeAll ws (wssClients s)\<rparr>) ws now = Some s'"
      by simp
    from handleDisconnect_timers(1,2) [OF this] assms(4) show ?thesis by simp
  next
    case False
    with Closed assms(1,4) show ?thesis by auto
  qed
next
  case (Timeout t)
  with assms(2) show ?thesis by simp
qed

text \<open>
  A handle that is not pending and was handed out before never becomes pending again:
  every new timeout gets a fresh handle.
\<close>

lemma step_fresh_timer:
  assumes "step s e = Some s'" and "\<not> isTimeout e"
    and "t \<notin> fst ` set (timers s)" and "t < nextTimer s"
  shows "t \<notin> fst ` set (timers s') \<and> t < nextTimer s' \<and> exited s' = exited s"
proof (cases e)
  case (Connection ws usr)
  with assms(1) have "handleConnection
      (s\<lparr>readyState := (readyState s)(ws := OPEN), wssClients := wssClients s @ [ws]\<rparr>) ws usr
      = Some s'" by simp
  from handleConnection_timers [OF this] assms(3,4) show ?thesis by simp
next
  case (Message ws m now)
  with assms(1) have hm: "handleMessage s ws m now = Some s'" by simp
  from handleMessage_timers [OF hm] handleMessage_frame [OF hm] assms(3,4)
  show ?thesis by auto
next
  case (Closed ws now)
  show ?thesis
  proof (cases "ws \<in> listening s")
    case True
    with Closed assms(1) have "handleDisconnect
        (s\<lparr>readyState := (readyState s)(ws := CLOSED),
            wssClients := removeAll ws (wssClients s)\<rparr>) ws now = Some s'"
      by simp
    from handleDisconnect_timers(1) [OF this] handleDisconnect_timers(3) [OF this, of t] assms(3,4)
    show ?thesis by simp
  next
    case False
    with Closed assms(1,3,4) show ?thesis by auto
  qed
next
  case (Timeout t)
  with assms(2) show ?thesis by simp
qed

lemma exec_append:
  "exec s (es @ fs) = (case exec s es of None \<Rightarrow> None | Some s1 \<Rightarrow> exec s1 fs)"
  by (induction es arbitrary: s) (auto split: option.splits)

lemma exec_keeps_timer:
  assumes "exec s es = Some s'" and "\<not> list_ex isTimeout es"
    and "\<not> list_ex isHostRegistration es" and "hostWs s = None"
  shows "hostWs s' = None \<and> shutdownTimer s' = shutdownTimer s \<and> timers s' = timers s \<and>
         nextTimer s' = nextTimer s \<and> exited s' = exited s"
  using assms
proof (induction es arbitrary: s)
  case Nil
  then show ?case by simp
next
  case (Cons e es)
  from Cons.prems(1) obtain s1 where e: "step s e = Some s1" "exec s1 es = Some s'"
    by (auto split: if_splits option.splits)
  from Cons.prems(2,3) have ne: "\<not> isTimeout e" "\<not> isHostRegistration e"
    and nes: "\<not> list_ex isTimeout es" "\<not> list_ex isHostRegistration es" by simp_all
  from step_keeps_timer [OF e(1) ne Cons.prems(4)]
  have k: "hostWs s1 = None" "shutdownTimer s1 = shutdownTimer s" "timers s1 = timers s"
    "nextTimer s1 = nextTimer s" "exited s1 = exited s" by simp_all
  from Cons.IH [OF e(2) nes k(1)] k show ?case by simp
qed

lemma exec_fresh_timer:
  assumes "exec s es = Some s'" and "\<not> list_ex isTimeout es"
    and "t \<notin> fst ` set (timers s)" and "t < nextTimer s"
  shows "t \<notin> fst ` set (timers s') \<and> exited s' = exited s"
  using assms
proof (induction es arbitrary: s)
  case Nil
  then show ?case by simp
next
  case (Cons e es)
  from Cons.prems(1) obtain s1 where e: "step s e = Some s1" "exec s1 es = Some s'"
    by (auto split: if_splits option.splits)
  from Cons.prems(2) have ne: "\<not> isTimeout e" and nes: "\<not> list_ex isTimeout es" by simp_all
  from step_fresh_timer [OF e(1) ne Cons.prems(3,4)]
  have k: "t \<notin> fst ` set (timers s1)" "t < nextTimer s1" "exited s1 = exited s" by simp_all
  from Cons.IH [OF e(2) nes k(1,2)] k(3) show ?case by simp
qed

lemma registerAsHost_timers:
  assumes "handleMessage s ws RegisterAsHost now = Some s'"
  shows "shutdownTimer s' = None"
    and "timers s' = (case shutdownTimer s of None \<Rightarrow> timers s
                      | Some t \<Rightarrow> filter (\<lambda>(h, _). h \<noteq> t) (timers s))"
  using assms
  by (auto simp: registerAsHost_def Let_def split: option.splits if_splits
           dest!: broadcastRequestQueue_SomeD)

text \<open>At most one timeout is pending, and the service holds its handle.\<close>

lemma step_one_timer:
  assumes "step s e = Some s'"
    and "\<forall>h \<in> fst ` set (timers s). shutdownTimer s = Some h"
  shows "\<forall>h \<in> fst ` set (timers s'). shutdownTimer s' = Some h"
proof (cases e)
  case (Connection ws usr)
  with assms(1) have "handleConnection
      (s\<lparr>readyState := (readyState s)(ws := OPEN), wssClients := wssClients s @ [ws]\<rparr>) ws usr
      = Some s'" by simp
  from handleConnection_timers [OF this] assms(2) show ?thesis by simp
next
  case (Message ws m now)
  with assms(1) have hm: "handleMessage s ws m now = Some s'" by simp
  show ?thesis
  proof (cases "m = RegisterAsHost")
    case True
    with hm have r: "handleMessage s ws RegisterAsHost now = Some s'" by simp
    have "h \<notin> fst ` set (timers s')" for h
    proof
      assume "h \<in> fst ` set (timers s')"
      then have "h \<in> fst ` set (timers s)" "shutdownTimer s \<noteq> Some h"
        by (auto simp: registerAsHost_timers(2) [OF r] split: option.splits)
      with assms(2) show False by blast
    qed
    then show ?thesis by blast
  next
    case False
    with handleMessage_timers [OF hm] assms(2) show ?thesis by simp
  qed
next
  case (Closed ws now)
  let ?s0 = "s\<lparr>readyState := (readyState s)(ws := CLOSED),
               wssClients := removeAll ws (wssClients s)\<rparr>"
  show ?thesis
  proof (cases "ws \<in> listening s")
    case False
    with Closed assms show ?thesis by auto
  next
    case True
    with Closed assms(1) have hd: "handleDisconnect ?s0 ws now = Some s'" by simp
    show ?thesis
    proof (cases "wsUser ?s0 ws")
      case None
      with hd assms(2) show ?thesis by (auto simp: handleDisconnect_no_user)
    next
      case (Some usr)
      note f = handleDisconnect_fields [OF hd Some]
      from assms(2) show ?thesis by (auto simp: f)
    qed
  qed
next
  case (Timeout t)
  with assms(1) have "set (timers s') \<subseteq> set (timers s)" "shutdownTimer s' = shutdownTimer s"
    by (auto split: if_splits)
  with assms(2) show ?thesis by force
qed

lemma reachable_one_timer:
  "reachable s \<Longrightarrow> \<forall>h \<in> fst ` set (timers s). shutdownTimer s = Some h"
proof (induction rule: reachable.induct)
  case (reachable_initial ip)
  show ?case by (simp add: initial_def)
next
  case (reachable_step s e s')
  from step_one_timer [OF reachable_step(3) reachable_step.IH] show ?case .
qed

text \<open>
  C4. In a reachable state the close event of the host's socket is processed, clears the
  host slot and arms the shutdown timeout, which is then the only pending timeout.
  Whatever events are processed after that before the timeout expires (no other timeout
  can expire first: none is pending, and a later one has the same delay), the expiry of
  that timeout terminates the process if and only
  if none of them was a \<^verbatim>\<open>register-as-host\<close> message: a registration clears the pending
  timeout, and the handle of a cleared timeout is never pending again.
\<close>

theorem shutdown_iff_no_host_registration:
  assumes r: "reachable s" and h: "hostWs s = Some h" and en: "enabled s (Closed h now)"
  shows "\<exists>s1 t. step s (Closed h now) = Some s1 \<and> hostWs s1 = None \<and>
           shutdownTimer s1 = Some t \<and> fst ` set (timers s1) = {t} \<and>
           (\<forall>es s2. \<not> list_ex isTimeout es \<and> exec s1 es = Some s2 \<longrightarrow>
              (\<exists>s3. step s2 (Timeout t) = Some s3 \<and>
                    (exited s3 \<longleftrightarrow> \<not> list_ex isHostRegistration es)))"
proof -
  from r have coh: "coherent s" by (rule reachable_coherent)
  with h have hl: "h \<in> listening s" by (auto simp: coherent_def refs_ok_def)
  with coh obtain usr where usr: "wsUser s h = Some usr"
    by (auto simp: coherent_def users_ok_def)
  define s0 where "s0 = s\<lparr>readyState := (readyState s)(h := CLOSED),
                            wssClients := removeAll h (wssClients s)\<rparr>"
  from closed_progress [OF coh, of h now] obtain s1 where s1: "step s (Closed h now) = Some s1"
    by auto
  with hl have hd: "handleDisconnect s0 h now = Some s1" by (simp add: s0_def)
  from usr have usr0: "wsUser s0 h = Some usr" by (simp add: s0_def)
  note f = handleDisconnect_fields [OF hd usr0]
  define t where "t = nextTimer s"
  from h have host1: "hostWs s1 = None" and st1: "shutdownTimer s1 = Some t"
    and pend1: "t \<in> fst ` set (timers s1)" and next1: "nextTimer s1 = Suc t"
    by (simp_all add: f s0_def t_def)
  from en have ex1: "\<not> exited s1" by (simp add: f s0_def)
  from reachable_one_timer [OF r] h
  have only1: "fst ` set (timers s1) = {t}"
    by (auto simp: f s0_def t_def)
  have main: "\<exists>s3. step s2 (Timeout t) = Some s3 \<and>
                (exited s3 \<longleftrightarrow> \<not> list_ex isHostRegistration es)"
    if nt: "\<not> list_ex isTimeout es" and ex: "exec s1 es = Some s2" for es s2
  proof (cases "list_ex isHostRegistration es")
    case False
    from exec_keeps_timer [OF ex nt False host1] pend1
    have "t \<in> fst ` set (timers s2)" by simp
    with False show ?thesis by simp
  next
    case True
    then have "\<exists>e \<in> set es. isHostRegistration e" by (simp add: list_ex_iff)
    from split_list_first_prop [OF this]
    obtain es1 e es2 where sp: "es = es1 @ e # es2" and reg: "isHostRegistration e"
      and first: "\<forall>x \<in> set es1. \<not> isHostRegistration x"
      by blast
    from ex sp obtain sa sb where sa: "exec s1 es1 = Some sa"
      and sb: "step sa e = Some sb" and s2: "exec sb es2 = Some s2"
      by (auto simp: exec_append split: option.splits if_splits)
    from nt sp have nt1: "\<not> list_ex isTimeout es1" and nt2: "\<not> list_ex isTimeout es2"
      by (simp_all add: list_ex_iff)
    from first have nr1: "\<not> list_ex isHostRegistration es1" by (simp add: list_ex_iff)
    from exec_keeps_timer [OF sa nt1 nr1 host1] st1 next1 ex1
    have ka: "shutdownTimer sa = Some t" "nextTimer sa = Suc t" "\<not> exited sa" by simp_all
    from reg obtain ws now' where e: "e = Message ws RegisterAsHost now'"
      by (cases e rule: isHostRegistration.cases) auto
    with sb have hm: "handleMessage sa ws RegisterAsHost now' = Some sb" by simp
    from registerAsHost_clears [OF hm ka(1)] handleMessage_frame [OF hm] ka
    have kb: "t \<notin> fst ` set (timers sb)" "t < nextTimer sb" "\<not> exited sb" by simp_all
    from exec_fresh_timer [OF s2 nt2 kb(1,2)] kb(3)
    have "t \<notin> fst ` set (timers s2)" "\<not> exited s2" by simp_all
    with True show ?thesis by simp
  qed
  from s1 host1 st1 only1 main show ?thesis by blast
qed

text \<open>
  C4 at a concrete state: the lecturer hosts on socket 0, which closes at time 500. If
  nothing else happens the timeout with handle 0 ends the process; if the lecturer
  connects again and registers as host first, the expiry of handle 0 does nothing.
\<close>

theorem shutdown_iff_no_host_registration_witness:
  "case exec boot floorHeld of
     None \<Rightarrow> False
   | Some s \<Rightarrow>
       reachable s \<and> hostWs s = Some 0 \<and> enabled s (Closed 0 500) \<and>
       (case step s (Closed 0 500) of
          None \<Rightarrow> False
        | Some s1 \<Rightarrow>
            shutdownTimer s1 = Some 0 \<and>
            map_option exited (step s1 (Timeout 0)) = Some True \<and>
            (case exec s1 [Connection 3 lecturerH, Message 3 RegisterAsHost 600] of
               None \<Rightarrow> False
             | Some s2 \<Rightarrow> map_option exited (step s2 (Timeout 0)) = Some False))"
proof -
  have ev: "map_option (\<lambda>s. (hostWs s, readyState s 0, exited s, nextTimer s)) (exec boot floorHeld)
              = Some (Some 0, OPEN, False, 0)"
    by (simp add: run_defs)
  then obtain s where s: "exec boot floorHeld = Some s" by auto
  with ev have f: "hostWs s = Some 0" "readyState s 0 = OPEN" "\<not> exited s" "nextTimer s = 0"
    by simp_all
  then have en: "enabled s (Closed 0 500)" by simp
  from reachable_boot s have r: "reachable s" by (rule exec_reachable)
  have ev2: "map_option shutdownTimer (exec boot (floorHeld @ [Closed 0 500])) = Some (Some 0)"
    by (simp add: run_defs)
  have ev3: "exec boot (floorHeld @ Closed 0 500 #
               [Connection 3 lecturerH, Message 3 RegisterAsHost 600]) \<noteq> None"
    by (simp add: run_defs)
  from shutdown_iff_no_host_registration [OF r f(1) en]
  obtain s1 t where s1: "step s (Closed 0 500) = Some s1" and t: "shutdownTimer s1 = Some t"
    and all: "\<And>es s2. \<not> list_ex isTimeout es \<Longrightarrow> exec s1 es = Some s2 \<Longrightarrow>
                \<exists>s3. step s2 (Timeout t) = Some s3 \<and>
                     (exited s3 \<longleftrightarrow> \<not> list_ex isHostRegistration es)"
    by blast
  from ev2 s en s1 t have t0: "t = 0"
    by (simp add: exec_snoc del: step.simps enabled.simps)
  have pre: "exec boot (floorHeld @ Closed 0 500 # tail) = exec s1 tail" for tail
    using s en s1 by (simp add: exec_append del: step.simps enabled.simps)
  from ev3 obtain s2
    where s2: "exec s1 [Connection 3 lecturerH, Message 3 RegisterAsHost 600] = Some s2"
    unfolding pre by blast
  from all [of "[]" s1] t0 have a: "map_option exited (step s1 (Timeout 0)) = Some True"
    by (auto simp del: step.simps)
  from all [OF _ s2] t0 have b: "map_option exited (step s2 (Timeout 0)) = Some False"
    by (auto simp del: step.simps)
  from s r f(1) en s1 t t0 s2 a b show ?thesis
    by (simp del: step.simps enabled.simps exec.simps)
qed

end
